theory Spec2Isabelle
  imports Main "HOL-Library.Word"
begin

section \<open>Identifiers, errors and the object directory\<close>

text \<open>
  An \<open>ObjectId\<close> is a SHA-256 digest: 32 bytes, compared byte-lexicographically, which is
  the order of the 256-bit unsigned number the bytes spell. A \<open>UserId\<close> is a 16 byte
  identifier. Version counters are unsigned 64-bit integers.
\<close>

type_synonym ObjectId = "256 word"
type_synonym UserId = "128 word"

text \<open>
  Exceptions and aborts of the C++ code are values: \<open>OutOfRange\<close> is what
  \<^verbatim>\<open>std::map::at\<close> throws on an absent key, \<open>AssertionFailed\<close> is a failing
  \<^verbatim>\<open>ouisync_assert\<close>, \<open>IOError\<close> is an exception of the object directory or of the
  archive, \<open>BlockMissing\<close> is the load of an absent block, \<open>VersionRegression\<close> is
  a version that would go down.
\<close>

datatype error =
  OutOfRange | IOError | AssertionFailed | RefcountUnderflow | BlockMissing | VersionRegression

text \<open>
  The modules \<^verbatim>\<open>object/io\<close>, \<^verbatim>\<open>refcount\<close> and \<^verbatim>\<open>archive\<close> are not part of the
  sources at hand. Every call into them is recorded, in order, in the \<open>calls\<close> of the
  object directory; which calls raise an I/O error is decided by a predicate \<open>fails\<close>
  that the functions below take as their first argument.
\<close>

datatype io_call =
    Exists ObjectId
  | StoreObject ObjectId
  | IncrementRecursive ObjectId
  | IncrementDirect ObjectId
  | FlatRemove ObjectId
  | DeepRemove ObjectId
  | ArchiveStore

text \<open>
  Modelled from the spec: the refcount record \<^verbatim>\<open>Rc\<close> (declared in \<^verbatim>\<open>refcount.h\<close>, which
  is absent) holds two non-negative counters, \<open>direct\<close> and \<open>recursive\<close>.
\<close>

record Rc =
  direct_count :: nat
  recursive_count :: nat

record ObjectDir =
  present :: "ObjectId set"
  rc :: "ObjectId \<Rightarrow> Rc"
  calls :: "io_call list"

section \<open>RemoteBranch\<close>

text \<open>
  \<^verbatim>\<open>_missing_objects\<close> maps an object to its parents, \<^verbatim>\<open>_incomplete_objects\<close> maps an
  object to its children that are still missing, \<^verbatim>\<open>_complete_objects\<close> is a set. The
  C++ containers are ordered (\<^verbatim>\<open>std::map\<close>, \<^verbatim>\<open>std::set\<close>): loops visit their elements
  in ascending order, which is \<open>sorted_list_of_set\<close> here.
\<close>

record RemoteBranch =
  missing_objects :: "ObjectId \<rightharpoonup> ObjectId set"
  incomplete_objects :: "ObjectId \<rightharpoonup> ObjectId set"
  complete_objects :: "ObjectId set"

text \<open>\<^verbatim>\<open>_flat_store\<close>: \<^verbatim>\<open>object::io::store\<close> followed by \<^verbatim>\<open>refcount::increment_recursive\<close>.\<close>

definition flat_store ::
  "(io_call \<Rightarrow> bool) \<Rightarrow> ('obj \<Rightarrow> ObjectId) \<Rightarrow> ObjectDir \<Rightarrow> 'obj \<Rightarrow> (error + ObjectId) \<times> ObjectDir" where
  "flat_store fails calculate_id objdir obj =
     (let new_id = calculate_id obj in
      if fails (StoreObject new_id) then (Inl IOError, objdir)
      else
        let objdir1 = objdir\<lparr>present := insert new_id (present objdir),
                              calls := calls objdir @ [StoreObject new_id]\<rparr>
        in if fails (IncrementRecursive new_id) then (Inl IOError, objdir1)
           else (Inr new_id, objdir1\<lparr>calls := calls objdir1 @ [IncrementRecursive new_id]\<rparr>))"

text \<open>\<^verbatim>\<open>store_self\<close>: \<^verbatim>\<open>archive::store(_filepath, *this)\<close>.\<close>

definition store_self :: "(io_call \<Rightarrow> bool) \<Rightarrow> ObjectDir \<Rightarrow> (error + unit) \<times> ObjectDir" where
  "store_self fails objdir =
     (if fails ArchiveStore then (Inl IOError, objdir)
      else (Inr (), objdir\<lparr>calls := calls objdir @ [ArchiveStore]\<rparr>))"

text \<open>
  \<^verbatim>\<open>filter_missing\<close> walks the set and erases every element that exists in the object
  directory. The list is the set in ascending order, \<open>objs\<close> the set being filtered.
\<close>

fun filter_missing ::
  "(io_call \<Rightarrow> bool) \<Rightarrow> ObjectDir \<Rightarrow> ObjectId list \<Rightarrow> ObjectId set \<Rightarrow> error + ObjectId set" where
  "filter_missing fails objdir [] objs = Inr objs"
| "filter_missing fails objdir (i # rest) objs =
     (if fails (Exists i) then Inl IOError
      else if i \<in> present objdir then filter_missing fails objdir rest (objs - {i})
      else filter_missing fails objdir rest objs)"

text \<open>
  The loop over the parents in the first branch of \<^verbatim>\<open>insert_object\<close>:
  \<^verbatim>\<open>_incomplete_objects.at(parent)\<close> throws when the parent has no entry; the set is
  changed in place, so the erased child is gone even when the loop throws later.
\<close>

fun parents_loop ::
  "ObjectId \<Rightarrow> ObjectId list \<Rightarrow> RemoteBranch \<Rightarrow> (error + unit) \<times> RemoteBranch" where
  "parents_loop obj_id [] b = (Inr (), b)"
| "parents_loop obj_id (parent # rest) b =
     (case incomplete_objects b parent of
        None \<Rightarrow> (Inl OutOfRange, b)
      | Some missing_children \<Rightarrow>
          if missing_children - {obj_id} = {} then
            parents_loop obj_id rest
              (b\<lparr>incomplete_objects := (incomplete_objects b)(parent := None),
                 complete_objects := insert parent (complete_objects b) - {obj_id}\<rparr>)
          else
            parents_loop obj_id rest
              (b\<lparr>incomplete_objects :=
                   (incomplete_objects b)(parent \<mapsto> missing_children - {obj_id})\<rparr>))"

text \<open>The loop \<^verbatim>\<open>for (auto& child : children) _missing_objects[child].insert(id)\<close>.\<close>

definition children_loop ::
  "ObjectId \<Rightarrow> ObjectId list \<Rightarrow> (ObjectId \<rightharpoonup> ObjectId set) \<Rightarrow> (ObjectId \<rightharpoonup> ObjectId set)" where
  "children_loop obj_id cs m =
     fold (\<lambda>child m. m(child \<mapsto> insert obj_id (case m child of None \<Rightarrow> {} | Some ps \<Rightarrow> ps))) cs m"

text \<open>
  The in-memory part of \<^verbatim>\<open>RemoteBranch::insert_object\<close>, up to the call of
  \<^verbatim>\<open>_flat_store\<close>. \<^verbatim>\<open>std::map::insert\<close> keeps an entry that is already there.
\<close>

definition insert_object_memory ::
  "(io_call \<Rightarrow> bool) \<Rightarrow> ObjectDir \<Rightarrow> ObjectId \<Rightarrow> ObjectId set \<Rightarrow> RemoteBranch
     \<Rightarrow> (error + unit) \<times> RemoteBranch" where
  "insert_object_memory fails objdir obj_id children b =
     (case missing_objects b obj_id of
        None \<Rightarrow> (Inl OutOfRange, b)
      | Some parents \<Rightarrow>
          let b1 = b\<lparr>missing_objects := (missing_objects b)(obj_id := None)\<rparr> in
          if children = {} then
            parents_loop obj_id (sorted_list_of_set parents)
              (b1\<lparr>complete_objects := insert obj_id (complete_objects b1)\<rparr>)
          else
            (case filter_missing fails objdir (sorted_list_of_set children) children of
               Inl e \<Rightarrow> (Inl e, b1)
             | Inr children' \<Rightarrow>
                 let b2 = b1\<lparr>missing_objects :=
                            children_loop obj_id (sorted_list_of_set children') (missing_objects b1)\<rparr>
                 in if children' = {} then
                      (Inr (), b2\<lparr>complete_objects := insert obj_id (complete_objects b2)\<rparr>)
                    else
                      (Inr (), b2\<lparr>incomplete_objects :=
                                   (case incomplete_objects b2 obj_id of
                                      None \<Rightarrow> (incomplete_objects b2)(obj_id \<mapsto> children')
                                    | Some _ \<Rightarrow> incomplete_objects b2)\<rparr>)))"

text \<open>
  \<^verbatim>\<open>RemoteBranch::insert_object\<close>. The result carries the branch and the object
  directory as they are when the function returns or throws.
\<close>

definition RemoteBranch_insert_object ::
  "(io_call \<Rightarrow> bool) \<Rightarrow> ('obj \<Rightarrow> ObjectId) \<Rightarrow> 'obj \<Rightarrow> ObjectId set \<Rightarrow> RemoteBranch \<Rightarrow> ObjectDir
     \<Rightarrow> (error + ObjectId) \<times> RemoteBranch \<times> ObjectDir" where
  "RemoteBranch_insert_object fails calculate_id obj children b objdir =
     (let obj_id = calculate_id obj in
      case insert_object_memory fails objdir obj_id children b of
        (Inl e, b') \<Rightarrow> (Inl e, b', objdir)
      | (Inr _, b') \<Rightarrow>
          (case flat_store fails calculate_id objdir obj of
             (Inl e, objdir1) \<Rightarrow> (Inl e, b', objdir1)
           | (Inr _, objdir1) \<Rightarrow>
               (case store_self fails objdir1 of
                  (Inl e, objdir2) \<Rightarrow> (Inl e, b', objdir2)
                | (Inr _, objdir2) \<Rightarrow> (Inr obj_id, b', objdir2))))"

text \<open>
  \<^verbatim>\<open>RemoteBranch::create_snapshot\<close>. \<^verbatim>\<open>Snapshot::capture_flat_object\<close> and
  \<^verbatim>\<open>capture_full_object\<close> are declared in the absent \<^verbatim>\<open>snapshot.h\<close>; the function is
  modelled by the calls it makes on the new snapshot, in order.
\<close>

datatype capture = capture_flat_object ObjectId | capture_full_object ObjectId

definition create_snapshot :: "RemoteBranch \<Rightarrow> capture list" where
  "create_snapshot b =
     (if dom (incomplete_objects b) = {} then
        map capture_flat_object (sorted_list_of_set (dom (incomplete_objects b)))
      else
        map capture_full_object (sorted_list_of_set (complete_objects b)))"

section \<open>Snapshot\<close>

datatype NodeType = Missing | Incomplete | Complete

record Children =
  missing :: "ObjectId set"
  incomplete :: "ObjectId set"
  complete :: "ObjectId set"

record Node =
  type :: NodeType
  parents :: "ObjectId set"
  children :: Children

text \<open>
  Modelled from the spec: \<^verbatim>\<open>Node::is_complete\<close> is declared in the absent
  \<^verbatim>\<open>snapshot.h\<close>; a node is complete when none of its children is missing or
  incomplete.
\<close>

definition is_complete :: "Node \<Rightarrow> bool" where
  "is_complete n \<longleftrightarrow> missing (children n) = {} \<and> incomplete (children n) = {}"

record Snapshot =
  root_id :: ObjectId
  nodes :: "ObjectId \<rightharpoonup> Node"

text \<open>The constructor: one \<open>Missing\<close> node for the root of the commit.\<close>

definition Snapshot_create :: "ObjectId \<Rightarrow> Snapshot" where
  "Snapshot_create r =
     \<lparr>root_id = r,
      nodes = [r \<mapsto> \<lparr>type = Missing, parents = {},
                       children = \<lparr>missing = {}, incomplete = {}, complete = {}\<rparr>\<rparr>]\<rparr>"

text \<open>
  Modelled from the spec: the methods of \<^verbatim>\<open>Rc\<close> change one counter of one object and
  persist it; a decrement below zero is a fatal \<open>RefcountUnderflow\<close>.
  \<^verbatim>\<open>ObjectStore.store\<close> writes the block and does not touch the counters.
\<close>

definition increment_recursive_count :: "ObjectId \<Rightarrow> ObjectDir \<Rightarrow> ObjectDir" where
  "increment_recursive_count i objdir =
     objdir\<lparr>rc := (rc objdir)(i := (rc objdir i)\<lparr>recursive_count := recursive_count (rc objdir i) + 1\<rparr>)\<rparr>"

definition increment_direct_count :: "ObjectId \<Rightarrow> ObjectDir \<Rightarrow> ObjectDir" where
  "increment_direct_count i objdir =
     objdir\<lparr>rc := (rc objdir)(i := (rc objdir i)\<lparr>direct_count := direct_count (rc objdir i) + 1\<rparr>)\<rparr>"

definition decrement_direct_count :: "ObjectId \<Rightarrow> ObjectDir \<Rightarrow> error + ObjectDir" where
  "decrement_direct_count i objdir =
     (if direct_count (rc objdir i) = 0 then Inl RefcountUnderflow
      else Inr (objdir\<lparr>rc := (rc objdir)(i := (rc objdir i)\<lparr>direct_count := direct_count (rc objdir i) - 1\<rparr>)\<rparr>))"

definition store_block :: "ObjectId \<Rightarrow> ObjectDir \<Rightarrow> ObjectDir" where
  "store_block i objdir = objdir\<lparr>present := insert i (present objdir)\<rparr>"

text \<open>
  A loop whose body may throw or run out of fuel: the first error stops it, with the
  state as the body left it.
\<close>

fun for_each ::
  "('a \<Rightarrow> 's \<Rightarrow> ((error + unit) \<times> 's) option) \<Rightarrow> 'a list \<Rightarrow> 's \<Rightarrow> ((error + unit) \<times> 's) option" where
  "for_each f [] s = Some (Inr (), s)"
| "for_each f (x # xs) s =
     (case f x s of
        None \<Rightarrow> None
      | Some (Inl e, s') \<Rightarrow> Some (Inl e, s')
      | Some (Inr _, s') \<Rightarrow> for_each f xs s')"

text \<open>\<^verbatim>\<open>Snapshot::sort_children\<close>.\<close>

definition sort_children :: "ObjectDir \<Rightarrow> ObjectId set \<Rightarrow> Children" where
  "sort_children objdir chs =
     fold (\<lambda>ch ret.
             if ch \<notin> present objdir then ret\<lparr>missing := insert ch (missing ret)\<rparr>
             else if recursive_count (rc objdir ch) > 0 then ret\<lparr>complete := insert ch (complete ret)\<rparr>
             else ret\<lparr>incomplete := insert ch (incomplete ret)\<rparr>)
          (sorted_list_of_set chs)
          \<lparr>missing = {}, incomplete = {}, complete = {}\<rparr>"

text \<open>
  \<^verbatim>\<open>Snapshot::notify_parent_that_child_completed\<close>. The recursion goes up the parents
  recorded in the nodes, which nothing forces to be acyclic: the first argument bounds
  its depth, and \<open>None\<close> is a run that needs more. \<open>parent\<close> is a reference into
  \<^verbatim>\<open>_nodes\<close>, so each change of it is a change of the map at once.
\<close>

fun notify_parent_that_child_completed ::
  "nat \<Rightarrow> ObjectId \<Rightarrow> ObjectId \<Rightarrow> Snapshot \<times> ObjectDir \<Rightarrow> ((error + unit) \<times> Snapshot \<times> ObjectDir) option" where
  "notify_parent_that_child_completed 0 parent_id child st = None"
| "notify_parent_that_child_completed (Suc fuel) parent_id child (s, objdir) =
     (case nodes s parent_id of
        None \<Rightarrow> Some (Inl OutOfRange, s, objdir)
      | Some parent \<Rightarrow>
          let cnt = (if child \<in> missing (children parent) then 1 else 0)
                  + (if child \<in> incomplete (children parent) then (1::nat) else 0);
              erased = parent\<lparr>children := (children parent)
                          \<lparr>missing := missing (children parent) - {child},
                           incomplete := incomplete (children parent) - {child}\<rparr>\<rparr>
          in if cnt \<noteq> 1 then Some (Inl AssertionFailed, s\<lparr>nodes := (nodes s)(parent_id \<mapsto> erased)\<rparr>, objdir)
             else
               let parent1 = erased\<lparr>children := (children erased)
                               \<lparr>complete := insert child (complete (children erased))\<rparr>\<rparr>;
                   s1 = s\<lparr>nodes := (nodes s)(parent_id \<mapsto> parent1)\<rparr>
               in if is_complete parent1 then
                    (case decrement_direct_count parent_id objdir of
                       Inl e \<Rightarrow> Some (Inl e, s1, objdir)
                     | Inr objdir1 \<Rightarrow>
                         let objdir2 = increment_recursive_count parent_id objdir1 in
                         if type parent1 \<noteq> Incomplete then Some (Inl AssertionFailed, s1, objdir2)
                         else
                           let s2 = s1\<lparr>nodes := (nodes s1)(parent_id \<mapsto> parent1\<lparr>type := Complete\<rparr>)\<rparr> in
                           (case for_each (\<lambda>grandparent. notify_parent_that_child_completed fuel grandparent parent_id)
                                   (sorted_list_of_set (parents parent1)) (s2, objdir2) of
                              None \<Rightarrow> None
                            | Some (Inl e, st') \<Rightarrow> Some (Inl e, st')
                            | Some (Inr _, (s3, objdir3)) \<Rightarrow>
                                Some (Inr (), s3\<lparr>nodes := (nodes s3)(child := None)\<rparr>, objdir3)))
                  else Some (Inr (), s1, objdir))"

text \<open>
  The loop of \<^verbatim>\<open>Snapshot::insert_object\<close> that registers the children:
  \<^verbatim>\<open>_nodes.insert\<close> keeps a node that is already there, and \<open>id\<close> joins its parents.
\<close>

definition register_children ::
  "ObjectId \<Rightarrow> ObjectId list \<Rightarrow> (ObjectId \<rightharpoonup> Node) \<Rightarrow> (ObjectId \<rightharpoonup> Node)" where
  "register_children i cs m =
     fold (\<lambda>child_id m.
             let child = (case m child_id of
                            None \<Rightarrow> \<lparr>type = Missing, parents = {},
                                     children = \<lparr>missing = {}, incomplete = {}, complete = {}\<rparr>\<rparr>
                          | Some n \<Rightarrow> n)
             in m(child_id \<mapsto> child\<lparr>parents := insert i (parents child)\<rparr>))
          cs m"

text \<open>
  \<^verbatim>\<open>Snapshot::insert_object\<close>. \<open>node\<close> is a reference into \<^verbatim>\<open>_nodes\<close>: it is read
  again after the loop over the children (the loop never erases a node, so the lookup
  finds it).
\<close>

definition Snapshot_insert_object ::
  "nat \<Rightarrow> ObjectId \<Rightarrow> ObjectId set \<Rightarrow> Snapshot \<times> ObjectDir \<Rightarrow> ((error + unit) \<times> Snapshot \<times> ObjectDir) option" where
  "Snapshot_insert_object fuel i chs st =
     (case st of (s, objdir) \<Rightarrow>
      (case nodes s i of
         None \<Rightarrow> Some (Inr (), s, objdir)
       | Some node0 \<Rightarrow>
           if type node0 \<noteq> Missing then Some (Inr (), s, objdir)
           else
             let node1 = node0\<lparr>type := (if chs = {} then Complete else Incomplete),
                              children := sort_children objdir chs\<rparr>;
                 s1 = s\<lparr>nodes := register_children i (sorted_list_of_set chs) ((nodes s)(i \<mapsto> node1))\<rparr>
             in (case nodes s1 i of
                   None \<Rightarrow> Some (Inl OutOfRange, s1, objdir)
                 | Some node \<Rightarrow>
                     if is_complete node then
                       for_each (\<lambda>parent_id. notify_parent_that_child_completed fuel parent_id i)
                         (sorted_list_of_set (parents node)) (s1, increment_recursive_count i objdir)
                     else Some (Inr (), s1, increment_direct_count i objdir))))"

text \<open>
  One delivery by the owner of a snapshot: the block is written to the object directory
  (\<^verbatim>\<open>ObjectStore.store\<close>, which leaves the counters alone), then reported with
  \<^verbatim>\<open>insert_object\<close>. A run that has thrown stays as it is.
\<close>

definition deliver ::
  "nat \<Rightarrow> ObjectId \<Rightarrow> ObjectId set \<Rightarrow> ((error + unit) \<times> Snapshot \<times> ObjectDir) option
     \<Rightarrow> ((error + unit) \<times> Snapshot \<times> ObjectDir) option" where
  "deliver fuel i chs run =
     (case run of
        Some (Inr _, s, objdir) \<Rightarrow> Snapshot_insert_object fuel i chs (s, store_block i objdir)
      | _ \<Rightarrow> run)"

text \<open>
  \<^verbatim>\<open>Snapshot::forget\<close>. \<^verbatim>\<open>refcount::deep_remove\<close> and \<^verbatim>\<open>flat_remove\<close> are calls into
  the absent \<^verbatim>\<open>refcount\<close> module; the \<^verbatim>\<open>catch\<close> block ends the process with
  \<^verbatim>\<open>exit(1)\<close>. The nodes are moved out of the snapshot first.
\<close>

datatype outcome = Returned | Exited nat

definition entries :: "('k::linorder \<rightharpoonup> 'v) \<Rightarrow> ('k \<times> 'v) list" where
  "entries m = map (\<lambda>k. (k, the (m k))) (sorted_list_of_set (dom m))"

fun forget_loop :: "(io_call \<Rightarrow> bool) \<Rightarrow> (ObjectId \<times> Node) list \<Rightarrow> ObjectDir \<Rightarrow> (error + unit) \<times> ObjectDir" where
  "forget_loop fails [] objdir = (Inr (), objdir)"
| "forget_loop fails ((i, node) # rest) objdir =
     (case type node of
        Complete \<Rightarrow>
          if fails (DeepRemove i) then (Inl IOError, objdir)
          else forget_loop fails rest (objdir\<lparr>calls := calls objdir @ [DeepRemove i]\<rparr>)
      | Incomplete \<Rightarrow>
          if fails (FlatRemove i) then (Inl IOError, objdir)
          else forget_loop fails rest (objdir\<lparr>calls := calls objdir @ [FlatRemove i]\<rparr>)
      | Missing \<Rightarrow> forget_loop fails rest objdir)"

definition forget :: "(io_call \<Rightarrow> bool) \<Rightarrow> Snapshot \<times> ObjectDir \<Rightarrow> outcome \<times> Snapshot \<times> ObjectDir" where
  "forget fails st =
     (case st of (s, objdir) \<Rightarrow>
      (case forget_loop fails (entries (nodes s)) objdir of
         (Inl e, objdir') \<Rightarrow> (Exited 1, s\<lparr>nodes := Map.empty\<rparr>, objdir')
       | (Inr _, objdir') \<Rightarrow> (Returned, s\<lparr>nodes := Map.empty\<rparr>, objdir')))"

text \<open>
  The calls that the nodes of a snapshot are owed when it is forgotten, in the order of
  the map: \<^verbatim>\<open>deep_remove\<close> for a \<open>Complete\<close> node, \<^verbatim>\<open>flat_remove\<close> for an
  \<open>Incomplete\<close> one, none for a \<open>Missing\<close> one.
\<close>

fun forget_calls :: "(ObjectId \<times> Node) list \<Rightarrow> io_call list" where
  "forget_calls [] = []"
| "forget_calls ((i, node) # rest) =
     (case type node of
        Complete \<Rightarrow> DeepRemove i # forget_calls rest
      | Incomplete \<Rightarrow> FlatRemove i # forget_calls rest
      | Missing \<Rightarrow> forget_calls rest)"

section \<open>Directory, Index and RootOp\<close>

text \<open>
  Modelled from the spec: a \<^verbatim>\<open>VersionVector\<close> (its class is absent) maps a user to a
  64-bit counter, a user without entry counting as zero; \<^verbatim>\<open>merge\<close> is the pointwise
  maximum, and \<^verbatim>\<open>set_version\<close> must not decrease the counter it sets.
\<close>

type_synonym VersionVector = "UserId \<rightharpoonup> 64 word"

definition version_of :: "VersionVector \<Rightarrow> UserId \<Rightarrow> 64 word" where
  "version_of vv u = (case vv u of None \<Rightarrow> 0 | Some n \<Rightarrow> n)"

definition merge :: "VersionVector \<Rightarrow> VersionVector \<Rightarrow> VersionVector" where
  "merge a b =
     (\<lambda>u. case a u of
            None \<Rightarrow> b u
          | Some x \<Rightarrow> (case b u of None \<Rightarrow> Some x | Some y \<Rightarrow> Some (max x y)))"


record VersionedObject =
  vobj_id :: ObjectId
  versions :: VersionVector

text \<open>
  A \<^verbatim>\<open>Directory\<close> is \<^verbatim>\<open>std::map<string, std::map<UserId, VersionedObject>>\<close>; the lists
  hold the entries in the order the map iterates them.
\<close>

type_synonym Directory = "(string \<times> (UserId \<times> VersionedObject) list) list"

text \<open>
  \<^verbatim>\<open>Directory::calculate_id\<close> feeds the hash the tag, the 32-bit size, and per file
  name the name, the 32-bit number of users and per user the user, the object id and the
  version vector. The hash function is a parameter.
\<close>

datatype hash_input =
    HTag
  | HSize "32 word"
  | HName string
  | HUser UserId
  | HId ObjectId
  | HVersions VersionVector

definition calculate_id :: "(hash_input list \<Rightarrow> ObjectId) \<Rightarrow> Directory \<Rightarrow> ObjectId" where
  "calculate_id sha256 d =
     sha256 (HTag # HSize (of_nat (length d)) #
       concat (map (\<lambda>(filename, user_map).
                 HName filename # HSize (of_nat (length user_map)) #
                 concat (map (\<lambda>(user, vobj). [HUser user, HId (vobj_id vobj), HVersions (versions vobj)])
                   user_map)) d))"

text \<open>\<^verbatim>\<open>Directory::calculate_version_vector_union\<close>.\<close>

definition calculate_version_vector_union :: "Directory \<Rightarrow> VersionVector" where
  "calculate_version_vector_union d =
     fold (\<lambda>(filename, user_map) result.
             fold (\<lambda>(username, vobj) result. merge result (versions vobj)) user_map result)
          d Map.empty"

text \<open>
  Modelled from the spec: \<^verbatim>\<open>Directory::for_each_unique_child\<close> (declared in the absent
  \<^verbatim>\<open>directory.h\<close>) visits every child object once, however many entries name it.
\<close>

definition for_each_unique_child :: "Directory \<Rightarrow> ObjectId list" where
  "for_each_unique_child d =
     fold (\<lambda>child_id seen. if child_id \<in> set seen then seen else seen @ [child_id])
          (concat (map (\<lambda>(filename, user_map). map (\<lambda>(user, vobj). vobj_id vobj) user_map) d)) []"

text \<open>
  Modelled from the spec: a block is a tag byte and a payload, the tag telling a
  directory from a blob; \<^verbatim>\<open>Directory::maybe_load\<close> parses directory blocks only.
\<close>

datatype Block = DirectoryBlock Directory | BlobBlock "8 word list"

definition maybe_load :: "Block \<Rightarrow> Directory option" where
  "maybe_load block = (case block of DirectoryBlock d \<Rightarrow> Some d | BlobBlock _ \<Rightarrow> None)"

text \<open>
  Modelled from the spec: the \<^verbatim>\<open>Index\<close> (its class is absent) holds the commit of every
  user and the edges \<open>(user, child, parent)\<close>; \<^verbatim>\<open>someone_has\<close> holds of an object when
  an edge names it as child. The self-edge \<open>(user, root, root)\<close> anchors \<open>root\<close> as the
  root of the user's commit: \<^verbatim>\<open>RootOp::commit\<close> hands the new root to the index in no
  other call. \<^verbatim>\<open>set_version_vector\<close> stores the vector of a user's commit; a vector in
  which some user's version is below the one the commit holds is rejected with
  \<open>VersionRegression\<close>, and the index stays as it is. A \<^verbatim>\<open>RootOp\<close> is built for a user
  that has a commit; for a user without one no root and no vector is stored.
\<close>

record Index =
  edges :: "(UserId \<times> ObjectId \<times> ObjectId) set"
  commits :: "UserId \<rightharpoonup> VersionedObject"

definition Index_insert_object :: "UserId \<Rightarrow> ObjectId \<Rightarrow> ObjectId \<Rightarrow> Index \<Rightarrow> Index" where
  "Index_insert_object u obj parent idx =
     idx\<lparr>edges := insert (u, obj, parent) (edges idx),
         commits := (if obj = parent
                     then (case commits idx u of
                             None \<Rightarrow> commits idx
                           | Some c \<Rightarrow> (commits idx)(u \<mapsto> c\<lparr>vobj_id := obj\<rparr>))
                     else commits idx)\<rparr>"

definition remove_object :: "UserId \<Rightarrow> ObjectId \<Rightarrow> ObjectId \<Rightarrow> Index \<Rightarrow> Index" where
  "remove_object u obj parent idx = idx\<lparr>edges := edges idx - {(u, obj, parent)}\<rparr>"

definition someone_has :: "Index \<Rightarrow> ObjectId \<Rightarrow> bool" where
  "someone_has idx obj \<longleftrightarrow> obj \<in> (\<lambda>(u, child, parent). child) ` edges idx"

definition set_version_vector :: "UserId \<Rightarrow> VersionVector \<Rightarrow> Index \<Rightarrow> error + Index" where
  "set_version_vector u vv idx =
     (case commits idx u of
        None \<Rightarrow> Inr idx
      | Some c \<Rightarrow>
          if \<exists>w \<in> dom (versions c). version_of vv w < version_of (versions c) w
          then Inl VersionRegression
          else Inr (idx\<lparr>commits := (commits idx)(u \<mapsto> c\<lparr>versions := vv\<rparr>)\<rparr>))"

text \<open>
  Modelled from the spec: the \<^verbatim>\<open>ObjectStore\<close> and the \<^verbatim>\<open>BlockStore\<close> (their classes
  are absent) are two layers over the same blocks, so one map stands for both members
  \<^verbatim>\<open>_objstore\<close> and \<^verbatim>\<open>_block_store\<close> of \<^verbatim>\<open>Branch::RootOp\<close>: \<^verbatim>\<open>_block_store.load\<close>
  reads it and throws on an absent id, \<^verbatim>\<open>_objstore.remove\<close> deletes from it, and
  \<^verbatim>\<open>Directory::save\<close> writes the directory's block under its id. The other fields are
  the members of the class as they are.
\<close>

record RootOp =
  block_store :: "ObjectId \<rightharpoonup> Block"
  this_user_id :: UserId
  tree :: Directory
  index :: Index
  original_commit :: VersionedObject


text \<open>
  \<^verbatim>\<open>RootOp::remove_recursive\<close>. The recursion follows the children that the loaded
  blocks name; its depth is bounded by the first argument, \<open>None\<close> is a run that needs
  more.
\<close>

fun remove_recursive ::
  "nat \<Rightarrow> ObjectId \<Rightarrow> ObjectId \<Rightarrow> RootOp \<Rightarrow> ((error + unit) \<times> RootOp) option" where
  "remove_recursive 0 obj_id parent_id s = None"
| "remove_recursive (Suc fuel) obj_id parent_id s =
     (let s1 = s\<lparr>index := remove_object (this_user_id s) obj_id parent_id (index s)\<rparr> in
      if someone_has (index s1) obj_id then Some (Inr (), s1)
      else
        (case block_store s1 obj_id of
           None \<Rightarrow> Some (Inl BlockMissing, s1)
         | Some block \<Rightarrow>
             (case for_each (\<lambda>child_id. remove_recursive fuel child_id obj_id)
                     (case maybe_load block of Some d \<Rightarrow> for_each_unique_child d | None \<Rightarrow> []) s1 of
                None \<Rightarrow> None
              | Some (Inl e, s2) \<Rightarrow> Some (Inl e, s2)
              | Some (Inr _, s2) \<Rightarrow> Some (Inr (), s2\<lparr>block_store := (block_store s2)(obj_id := None)\<rparr>))))"

text \<open>
  \<^verbatim>\<open>RootOp::commit\<close>. When the index rejects the version vector the commit throws
  with the new block written and the new edges inserted, before anything is removed.
\<close>

definition commit ::
  "(hash_input list \<Rightarrow> ObjectId) \<Rightarrow> nat \<Rightarrow> RootOp \<Rightarrow> ((error + bool) \<times> RootOp) option" where
  "commit sha256 fuel s =
     (let new_id = calculate_id sha256 (tree s);
          old_id = vobj_id (original_commit s)
      in if old_id = new_id then Some (Inr False, s)
         else
           let s1 = s\<lparr>block_store := (block_store s)(new_id \<mapsto> DirectoryBlock (tree s))\<rparr>;
               s2 = s1\<lparr>index := fold (\<lambda>child_id. Index_insert_object (this_user_id s1) child_id new_id)
                                   (for_each_unique_child (tree s1)) (index s1)\<rparr>;
               s3 = s2\<lparr>index := Index_insert_object (this_user_id s2) new_id new_id (index s2)\<rparr>
           in (case set_version_vector (this_user_id s3)
                      (calculate_version_vector_union (tree s3)) (index s3) of
                 Inl e \<Rightarrow> Some (Inl e, s3)
               | Inr index4 \<Rightarrow>
                   (case remove_recursive fuel old_id old_id (s3\<lparr>index := index4\<rparr>) of
                      None \<Rightarrow> None
                    | Some (Inl e, s5) \<Rightarrow> Some (Inl e, s5)
                    | Some (Inr _, s5) \<Rightarrow> Some (Inr True, s5))))"


text \<open>
  What \<^verbatim>\<open>remove_recursive\<close> may change of a \<^verbatim>\<open>RootOp\<close>: edges and blocks go away,
  nothing is added, and the commits, the user and the tree stay.
\<close>

definition only_removes :: "RootOp \<Rightarrow> RootOp \<Rightarrow> bool" where
  "only_removes s s' \<longleftrightarrow>
     edges (index s') \<subseteq> edges (index s) \<and> commits (index s') = commits (index s) \<and>
     this_user_id s' = this_user_id s \<and> tree s' = tree s \<and> original_commit s' = original_commit s \<and>
     (\<forall>k. block_store s' k = None \<or> block_store s' k = block_store s k)"

text \<open>
  Objects are named by the hash of their content, so no directory is among its own
  descendants. A block store is ranked by \<open>rank\<close> when every child that a directory
  block names has a smaller rank than the block's id.
\<close>

definition ranked :: "(ObjectId \<Rightarrow> nat) \<Rightarrow> (ObjectId \<rightharpoonup> Block) \<Rightarrow> bool" where
  "ranked rank bs \<longleftrightarrow>
     (\<forall>k d. bs k = Some (DirectoryBlock d) \<longrightarrow> (\<forall>c \<in> set (for_each_unique_child d). rank c < rank k))"

section \<open>Example states\<close>

text \<open>An empty object directory, and one that holds object 2 pinned recursively by someone else.\<close>

definition objdir0 :: ObjectDir where
  "objdir0 = \<lparr>present = {}, rc = (\<lambda>_. \<lparr>direct_count = 0, recursive_count = 0\<rparr>), calls = []\<rparr>"

definition ex_objdir_shared :: ObjectDir where
  "ex_objdir_shared =
     objdir0\<lparr>present := {2}, rc := (rc objdir0)(2 := \<lparr>direct_count = 0, recursive_count = 1\<rparr>)\<rparr>"

text \<open>
  Remote branches: a fresh one for the commit with root 1; one where object 1 waits for
  its child 2; one where 1 waits for 2 and 2 waits for 3.
\<close>

definition ex_branch_root :: RemoteBranch where
  "ex_branch_root =
     \<lparr>missing_objects = [1 \<mapsto> {}], incomplete_objects = Map.empty, complete_objects = {}\<rparr>"

definition ex_branch_filtered :: RemoteBranch where
  "ex_branch_filtered =
     \<lparr>missing_objects = [2 \<mapsto> {1}], incomplete_objects = [1 \<mapsto> {2}], complete_objects = {}\<rparr>"

definition ex_branch_chain :: RemoteBranch where
  "ex_branch_chain =
     \<lparr>missing_objects = [3 \<mapsto> {2}], incomplete_objects = [1 \<mapsto> {2}, 2 \<mapsto> {3}],
      complete_objects = {}\<rparr>"

text \<open>A snapshot with nodes of every type.\<close>

definition leaf :: "NodeType \<Rightarrow> Node" where
  "leaf t = \<lparr>type = t, parents = {}, children = \<lparr>missing = {}, incomplete = {}, complete = {}\<rparr>\<rparr>"

definition ex_snapshot :: Snapshot where
  "ex_snapshot =
     \<lparr>root_id = 1,
      nodes = [1 \<mapsto> leaf Complete, 2 \<mapsto> leaf Incomplete, 3 \<mapsto> leaf Missing, 4 \<mapsto> leaf Complete]\<rparr>"

text \<open>
  A hash for the examples: the number of items fed to it. It tells apart the
  directories below: the empty one is 2, one with one entry is 7, one with two entries
  is 12, one with three entries is 17.
\<close>

definition ex_sha256 :: "hash_input list \<Rightarrow> ObjectId" where
  "ex_sha256 xs = of_nat (length xs)"

text \<open>
  Root operations of user 1. The commit of user 1 is directory 7, which holds blob 5 as
  file \<open>a\<close> at version \<open>{1: 1}\<close>, and this is the version of the commit; blob 6 is in
  the store, ready to be added. The in-memory tree is a parameter.
\<close>

definition ex_vv :: "64 word \<Rightarrow> VersionVector" where
  "ex_vv n = [1 \<mapsto> n]"

definition ex_blob :: "ObjectId \<Rightarrow> 64 word \<Rightarrow> VersionedObject" where
  "ex_blob i n = \<lparr>vobj_id = i, versions = ex_vv n\<rparr>"

definition ex_rootop :: "Directory \<Rightarrow> RootOp" where
  "ex_rootop t =
     \<lparr>block_store = [7 \<mapsto> DirectoryBlock [(''a'', [(1, ex_blob 5 1)])], 5 \<mapsto> BlobBlock [], 6 \<mapsto> BlobBlock []],
      this_user_id = 1,
      tree = t,
      index = \<lparr>edges = {(1, 7, 7), (1, 5, 7)}, commits = [1 \<mapsto> \<lparr>vobj_id = 7, versions = ex_vv 1\<rparr>]\<rparr>,
      original_commit = \<lparr>vobj_id = 7, versions = ex_vv 1\<rparr>\<rparr>"

definition ex_rank :: "ObjectId \<Rightarrow> nat" where
  "ex_rank k = (if k = 5 \<or> k = 6 then 0 else 1)"

text \<open>
  A root operation of user 1 over the root directory 17, which names blob 5 twice and
  blob 6 once; user 2 holds blob 6 as well, in its root directory 7.
\<close>

definition ex_rootop_shared :: RootOp where
  "ex_rootop_shared =
     \<lparr>block_store =
        [17 \<mapsto> DirectoryBlock [(''a'', [(1, ex_blob 5 1)]), (''b'', [(1, ex_blob 5 1)]), (''c'', [(1, ex_blob 6 1)])],
         7 \<mapsto> DirectoryBlock [(''c'', [(2, ex_blob 6 1)])],
         5 \<mapsto> BlobBlock [], 6 \<mapsto> BlobBlock []],
      this_user_id = 1,
      tree = [(''a'', [(1, ex_blob 5 1)]), (''b'', [(1, ex_blob 5 1)]), (''c'', [(1, ex_blob 6 1)])],
      index = \<lparr>edges = {(1, 17, 17), (1, 5, 17), (1, 6, 17), (2, 7, 7), (2, 6, 7)},
               commits = [1 \<mapsto> \<lparr>vobj_id = 17, versions = ex_vv 1\<rparr>, 2 \<mapsto> \<lparr>vobj_id = 7, versions = ex_vv 1\<rparr>]\<rparr>,
      original_commit = \<lparr>vobj_id = 17, versions = ex_vv 1\<rparr>\<rparr>"

section \<open>RemoteBranch: what insert\_object stores, pins and records\<close>

lemmas eval_branch =
  RemoteBranch_insert_object_def insert_object_memory_def children_loop_def flat_store_def
  store_self_def objdir0_def ex_branch_root_def ex_branch_filtered_def ex_branch_chain_def
  Let_def word_le_nat_alt insert_Diff_if

lemma flat_store_calls:
  "flat_store fails calc od obj = (r, od') \<Longrightarrow>
     (\<exists>cs. calls od' = calls od @ cs \<and> set cs \<subseteq> {StoreObject (calc obj), IncrementRecursive (calc obj)}) \<and>
     (\<forall>i. r = Inr i \<longrightarrow> i = calc obj \<and> present od' = insert (calc obj) (present od) \<and>
        calls od' = calls od @ [StoreObject (calc obj), IncrementRecursive (calc obj)])"
  by (auto simp: flat_store_def Let_def split: if_splits)

lemma store_self_calls:
  "store_self fails od = (r, od') \<Longrightarrow>
     (\<exists>cs. calls od' = calls od @ cs \<and> set cs \<subseteq> {ArchiveStore}) \<and>
     (r = Inr () \<longrightarrow> calls od' = calls od @ [ArchiveStore] \<and> present od' = present od)"
  by (auto simp: store_self_def split: if_splits)

text \<open>
  C1. The claim has \<^verbatim>\<open>insert_object\<close> pin a complete object with
  \<^verbatim>\<open>increment_recursive\<close> and an incomplete one with \<^verbatim>\<open>increment_direct\<close>. The
  function ends with one unconditional \<^verbatim>\<open>_flat_store\<close>, so what holds is: whatever the
  call does to the object directory, \<^verbatim>\<open>increment_direct\<close> is not among it; and a call
  that returns has stored the object, pinned it with \<^verbatim>\<open>increment_recursive\<close> and
  archived the branch, in this order and nothing else, whether the object is complete or
  not.
\<close>

theorem insert_object_pins_recursive:
  assumes "RemoteBranch_insert_object fails calc obj chs b od = (r, b', od')"
  shows "(\<exists>cs. calls od' = calls od @ cs \<and> IncrementDirect x \<notin> set cs) \<and>
         (\<forall>i. r = Inr i \<longrightarrow>
            i = calc obj \<and> present od' = insert (calc obj) (present od) \<and>
            calls od' = calls od @ [StoreObject (calc obj), IncrementRecursive (calc obj), ArchiveStore])"
proof (cases "insert_object_memory fails od (calc obj) chs b")
  case (Pair rm bm)
  show ?thesis
  proof (cases rm)
    case (Inl e)
    with Pair assms show ?thesis
      by (auto simp: RemoteBranch_insert_object_def Let_def)
  next
    case (Inr u)
    obtain rf odf where f: "flat_store fails calc od obj = (rf, odf)"
      by (cases "flat_store fails calc od obj")
    note fc = flat_store_calls [OF f]
    show ?thesis
    proof (cases rf)
      case (Inl e)
      with Pair Inr f assms have "od' = odf" "r = Inl e"
        by (auto simp: RemoteBranch_insert_object_def Let_def)
      with fc show ?thesis by auto
    next
      case (Inr i)
      obtain rs ods where st: "store_self fails odf = (rs, ods)"
        by (cases "store_self fails odf")
      note sc = store_self_calls [OF st]
      from Pair \<open>rm = Inr u\<close> f Inr st assms
      have od': "od' = ods" and r: "r = (case rs of Inl e \<Rightarrow> Inl e | Inr _ \<Rightarrow> Inr (calc obj))"
        by (auto simp: RemoteBranch_insert_object_def Let_def split: sum.splits)
      from fc Inr have c1: "calls odf = calls od @ [StoreObject (calc obj), IncrementRecursive (calc obj)]"
        and p1: "present odf = insert (calc obj) (present od)" by auto
      from sc obtain cs where cs: "calls ods = calls odf @ cs" "set cs \<subseteq> {ArchiveStore}" by auto
      have a: "\<exists>cs. calls od' = calls od @ cs \<and> IncrementDirect x \<notin> set cs"
        using c1 cs od' by auto
      have b: "\<forall>i. r = Inr i \<longrightarrow>
            i = calc obj \<and> present od' = insert (calc obj) (present od) \<and>
            calls od' = calls od @ [StoreObject (calc obj), IncrementRecursive (calc obj), ArchiveStore]"
        using r sc c1 p1 od' by (cases rs) auto
      from a b show ?thesis by simp
    qed
  qed
qed

text \<open>
  The theorem at work: object 3, a leaf whose parent 2 waits for it, is inserted into an
  empty object directory.
\<close>

theorem insert_object_pins_recursive_witness:
  "fst (RemoteBranch_insert_object (\<lambda>_. False) (\<lambda>obj. obj) 3 {} ex_branch_chain objdir0) = Inr 3 \<and>
   present (snd (snd (RemoteBranch_insert_object (\<lambda>_. False) (\<lambda>obj. obj) 3 {} ex_branch_chain objdir0))) = {3} \<and>
   calls (snd (snd (RemoteBranch_insert_object (\<lambda>_. False) (\<lambda>obj. obj) 3 {} ex_branch_chain objdir0)))
     = [StoreObject 3, IncrementRecursive 3, ArchiveStore]"
proof -
  let ?X = "RemoteBranch_insert_object (\<lambda>_. False) (\<lambda>obj. obj) 3 {} ex_branch_chain objdir0"
  have e: "?X = (fst ?X, fst (snd ?X), snd (snd ?X))" by simp
  have r: "fst ?X = Inr 3" by (simp add: eval_branch)
  from insert_object_pins_recursive [OF e, of 3] r show ?thesis by (simp add: objdir0_def)
qed

text \<open>
  C1 fails for an incomplete object: the root 1 arrives with a child 2 that the object
  directory does not hold. It is recorded as incomplete, waiting for 2, and it is pinned
  with \<^verbatim>\<open>increment_recursive\<close>; \<^verbatim>\<open>increment_direct\<close> is not called.
\<close>

theorem insert_object_pins_recursive_counterexample:
  "fst (RemoteBranch_insert_object (\<lambda>_. False) (\<lambda>obj. obj) 1 {2} ex_branch_root objdir0) = Inr 1 \<and>
   incomplete_objects (fst (snd (RemoteBranch_insert_object (\<lambda>_. False) (\<lambda>obj. obj) 1 {2} ex_branch_root objdir0))) 1
     = Some {2} \<and>
   IncrementDirect 1 \<notin> set (calls (snd (snd (RemoteBranch_insert_object (\<lambda>_. False) (\<lambda>obj. obj) 1 {2} ex_branch_root objdir0)))) \<and>
   calls (snd (snd (RemoteBranch_insert_object (\<lambda>_. False) (\<lambda>obj. obj) 1 {2} ex_branch_root objdir0)))
     = [StoreObject 1, IncrementRecursive 1, ArchiveStore]"
  by (simp add: eval_branch)

lemma parents_loop_result:
  assumes "distinct ps" and "\<forall>p \<in> set ps. incomplete_objects b p \<noteq> None"
  shows "parents_loop i ps b =
    (Inr (),
     b\<lparr>incomplete_objects :=
         (\<lambda>p. if p \<in> set ps
              then (if the (incomplete_objects b p) - {i} = {} then None
                    else Some (the (incomplete_objects b p) - {i}))
              else incomplete_objects b p),
       complete_objects :=
         (if \<exists>p \<in> set ps. the (incomplete_objects b p) - {i} = {}
          then (complete_objects b \<union> {p \<in> set ps. the (incomplete_objects b p) - {i} = {}}) - {i}
          else complete_objects b)\<rparr>)"
  using assms
proof (induction ps arbitrary: b)
  case Nil
  then show ?case by simp
next
  case (Cons parent rest)
  from Cons.prems obtain mc where mc: "incomplete_objects b parent = Some mc" by auto
  from Cons.prems have d: "distinct rest" and nin: "parent \<notin> set rest" by auto
  show ?case
  proof (cases "mc - {i} = {}")
    case True
    let ?b1 = "b\<lparr>incomplete_objects := (incomplete_objects b)(parent := None),
                 complete_objects := insert parent (complete_objects b) - {i}\<rparr>"
    have p1: "\<forall>p \<in> set rest. incomplete_objects ?b1 p \<noteq> None"
      using Cons.prems nin by auto
    have step: "parents_loop i (parent # rest) b = parents_loop i rest ?b1"
      using mc True by simp
    show ?thesis
      unfolding step Cons.IH [OF d p1]
      using mc True nin by (auto simp: fun_eq_iff intro!: RemoteBranch.equality; blast)
  next
    case False
    let ?b1 = "b\<lparr>incomplete_objects := (incomplete_objects b)(parent \<mapsto> mc - {i})\<rparr>"
    have p1: "\<forall>p \<in> set rest. incomplete_objects ?b1 p \<noteq> None"
      using Cons.prems nin by auto
    have step: "parents_loop i (parent # rest) b = parents_loop i rest ?b1"
      using mc False by simp
    show ?thesis
      unfolding step Cons.IH [OF d p1]
      using mc False nin by (auto simp: fun_eq_iff intro!: RemoteBranch.equality; blast)
  qed
qed

lemma parents_loop_result_from:
  assumes "distinct xs" and "\<forall>p \<in> set xs. inc p \<noteq> None"
    and "incomplete_objects b = inc" and "complete_objects b = C" and "set xs = ps"
  shows "parents_loop i xs b =
    (Inr (),
     b\<lparr>incomplete_objects :=
         (\<lambda>p. if p \<in> ps
              then (if the (inc p) - {i} = {} then None else Some (the (inc p) - {i}))
              else inc p),
       complete_objects :=
         (if \<exists>p \<in> ps. the (inc p) - {i} = {}
          then (C \<union> {p \<in> ps. the (inc p) - {i} = {}}) - {i}
          else C)\<rparr>)"
proof -
  from assms(2,3) have "\<forall>p \<in> set xs. incomplete_objects b p \<noteq> None" by simp
  from parents_loop_result [OF assms(1) this, of i] show ?thesis
    unfolding assms(3) assms(4) assms(5) .
qed

text \<open>
  C2. The claim has every object whose filtered children are empty marked complete, its
  parents updated, a parent whose set becomes empty promoted with a cascade to its own
  parents, and the promotion turning the parent's direct count into a recursive one. The
  code updates the parents only when the children set it was \<^emph>\<open>given\<close> is empty, and the
  promotion leaves the reference counts alone (``Reference counting stays the same''). What
  holds for a call with an empty children set, whose recorded parents \<open>ps\<close> all have an
  entry in \<^verbatim>\<open>_incomplete_objects\<close>: the entry of the object leaves
  \<^verbatim>\<open>_missing_objects\<close>; the object is erased from the set of each of its parents; a
  parent whose set becomes empty loses its entry and joins \<^verbatim>\<open>_complete_objects\<close>; the
  object itself is in \<^verbatim>\<open>_complete_objects\<close> exactly when no parent was promoted; and
  the only calls on the object directory are the store, the \<^verbatim>\<open>increment_recursive\<close> of
  the object and the archive.
\<close>

theorem insert_object_completes_parents:
  assumes "missing_objects b (calc obj) = Some ps" and "finite ps"
    and "\<forall>p \<in> ps. incomplete_objects b p \<noteq> None"
    and "\<not> fails (StoreObject (calc obj))" and "\<not> fails (IncrementRecursive (calc obj))"
    and "\<not> fails ArchiveStore"
  shows "RemoteBranch_insert_object fails calc obj {} b od =
     (Inr (calc obj),
      b\<lparr>missing_objects := (missing_objects b)(calc obj := None),
        incomplete_objects :=
          (\<lambda>p. if p \<in> ps
               then (if the (incomplete_objects b p) - {calc obj} = {} then None
                     else Some (the (incomplete_objects b p) - {calc obj}))
               else incomplete_objects b p),
        complete_objects :=
          (if \<exists>p \<in> ps. the (incomplete_objects b p) - {calc obj} = {}
           then (insert (calc obj) (complete_objects b)
                   \<union> {p \<in> ps. the (incomplete_objects b p) - {calc obj} = {}}) - {calc obj}
           else insert (calc obj) (complete_objects b))\<rparr>,
      od\<lparr>present := insert (calc obj) (present od),
         calls := calls od @ [StoreObject (calc obj), IncrementRecursive (calc obj), ArchiveStore]\<rparr>)"
proof -
  let ?i = "calc obj"
  let ?b1 = "b\<lparr>missing_objects := (missing_objects b)(?i := None),
               complete_objects := insert ?i (complete_objects b)\<rparr>"
  have d: "distinct (sorted_list_of_set ps)" by simp
  have s: "set (sorted_list_of_set ps) = ps" using assms(2) by simp
  have p: "\<forall>p \<in> set (sorted_list_of_set ps). incomplete_objects b p \<noteq> None"
    using assms(3) s by simp
  have m: "insert_object_memory fails od ?i {} b = parents_loop ?i (sorted_list_of_set ps) ?b1"
    using assms(1) by (simp add: insert_object_memory_def Let_def)
  have pl: "parents_loop ?i (sorted_list_of_set ps) ?b1 =
    (Inr (),
     ?b1\<lparr>incomplete_objects :=
         (\<lambda>p. if p \<in> ps
              then (if the (incomplete_objects b p) - {?i} = {} then None
                    else Some (the (incomplete_objects b p) - {?i}))
              else incomplete_objects b p),
       complete_objects :=
         (if \<exists>p \<in> ps. the (incomplete_objects b p) - {?i} = {}
          then (insert ?i (complete_objects b) \<union> {p \<in> ps. the (incomplete_objects b p) - {?i} = {}}) - {?i}
          else insert ?i (complete_objects b))\<rparr>)"
    by (rule parents_loop_result_from [OF d p _ _ s]) simp_all
  show ?thesis
    unfolding RemoteBranch_insert_object_def Let_def m pl
    using assms(4-6) by (simp add: flat_store_def store_self_def Let_def)
qed

text \<open>
  The theorem at work: leaf 3 arrives, its parent 2 waited for nothing else. 2 is
  promoted, and 3 itself leaves the complete set.
\<close>

theorem insert_object_completes_parents_witness:
  "fst (RemoteBranch_insert_object (\<lambda>_. False) (\<lambda>obj. obj) 3 {} ex_branch_chain objdir0) = Inr 3 \<and>
   missing_objects (fst (snd (RemoteBranch_insert_object (\<lambda>_. False) (\<lambda>obj. obj) 3 {} ex_branch_chain objdir0))) 3 = None \<and>
   incomplete_objects (fst (snd (RemoteBranch_insert_object (\<lambda>_. False) (\<lambda>obj. obj) 3 {} ex_branch_chain objdir0))) 2 = None \<and>
   complete_objects (fst (snd (RemoteBranch_insert_object (\<lambda>_. False) (\<lambda>obj. obj) 3 {} ex_branch_chain objdir0))) = {2}"
proof -
  have 1: "missing_objects ex_branch_chain ((\<lambda>obj. obj) 3) = Some {2}" by (simp add: ex_branch_chain_def)
  have 2: "finite {2::ObjectId}" by simp
  have 3: "\<forall>p \<in> {2}. incomplete_objects ex_branch_chain p \<noteq> None" by (simp add: ex_branch_chain_def)
  have 4: "\<not> (\<lambda>_. False) (StoreObject ((\<lambda>obj. obj) (3::ObjectId)))"
    "\<not> (\<lambda>_. False) (IncrementRecursive ((\<lambda>obj. obj) (3::ObjectId)))" "\<not> (\<lambda>_. False) ArchiveStore"
    by simp_all
  show ?thesis
    unfolding insert_object_completes_parents [where b = ex_branch_chain and calc = "\<lambda>obj. obj" and obj = 3
        and ps = "{2}" and fails = "\<lambda>_. False" and od = objdir0, OF 1 2 3 4]
    by (simp add: ex_branch_chain_def)
qed

text \<open>
  C2 fails twice. First, object 2 arrives with the one child 3, which the object
  directory holds: the filtered children are empty and 2 is marked complete, but its
  parent 1 still waits for it and is not promoted. Second, leaf 3 arrives while 2 waits
  for 3 and 1 waits for 2: 2 is promoted, 1 is not (no cascade), and no call converts a
  count of 2.
\<close>

theorem insert_object_completes_parents_counterexample:
  "fst (RemoteBranch_insert_object (\<lambda>_. False) (\<lambda>obj. obj) 2 {3} ex_branch_filtered (objdir0\<lparr>present := {3}\<rparr>)) = Inr 2 \<and>
   complete_objects (fst (snd (RemoteBranch_insert_object (\<lambda>_. False) (\<lambda>obj. obj) 2 {3} ex_branch_filtered (objdir0\<lparr>present := {3}\<rparr>)))) = {2} \<and>
   incomplete_objects (fst (snd (RemoteBranch_insert_object (\<lambda>_. False) (\<lambda>obj. obj) 2 {3} ex_branch_filtered (objdir0\<lparr>present := {3}\<rparr>)))) 1 = Some {2} \<and>
   fst (RemoteBranch_insert_object (\<lambda>_. False) (\<lambda>obj. obj) 3 {} ex_branch_chain objdir0) = Inr 3 \<and>
   complete_objects (fst (snd (RemoteBranch_insert_object (\<lambda>_. False) (\<lambda>obj. obj) 3 {} ex_branch_chain objdir0))) = {2} \<and>
   incomplete_objects (fst (snd (RemoteBranch_insert_object (\<lambda>_. False) (\<lambda>obj. obj) 3 {} ex_branch_chain objdir0))) 1 = Some {2} \<and>
   calls (snd (snd (RemoteBranch_insert_object (\<lambda>_. False) (\<lambda>obj. obj) 3 {} ex_branch_chain objdir0)))
     = [StoreObject 3, IncrementRecursive 3, ArchiveStore]"
  by (simp add: eval_branch)

section \<open>RemoteBranch: I/O errors\<close>

lemma set_sorted_list_of_set_subset: "set (sorted_list_of_set A) \<subseteq> A"
  by (cases "finite A") simp_all

lemma parents_loop_missing:
  "parents_loop i ps b = (r, b') \<Longrightarrow> missing_objects b' = missing_objects b \<and> r \<noteq> Inl IOError"
  by (induction i ps b rule: parents_loop.induct) (auto split: option.splits if_splits)

lemma filter_missing_subset:
  "filter_missing fails od cs objs = Inr objs' \<Longrightarrow> objs' \<subseteq> objs"
  by (induction fails od cs objs rule: filter_missing.induct) (auto split: if_splits)

lemma filter_missing_no_failure:
  "\<forall>c. \<not> fails (Exists c) \<Longrightarrow> filter_missing fails od cs objs = filter_missing (\<lambda>_. False) od cs objs"
  by (induction cs arbitrary: objs) auto

lemma filter_missing_ok: "filter_missing (\<lambda>_. False) od cs objs \<noteq> Inl e"
  by (induction cs arbitrary: objs) auto

lemma children_loop_other: "k \<notin> set cs \<Longrightarrow> children_loop i cs m k = m k"
  unfolding children_loop_def by (induction cs arbitrary: m) auto

lemma insert_object_memory_missing:
  assumes "insert_object_memory fails od i chs b = (r, b')" and "i \<notin> chs"
    and "r \<noteq> Inl OutOfRange"
  shows "missing_objects b i \<noteq> None \<and> missing_objects b' i = None"
proof (cases "missing_objects b i")
  case None
  with assms show ?thesis by (simp add: insert_object_memory_def)
next
  case (Some ps)
  show ?thesis
  proof (cases "chs = {}")
    case True
    with Some assms(1) have "parents_loop i (sorted_list_of_set ps)
        (b\<lparr>missing_objects := (missing_objects b)(i := None),
           complete_objects := insert i (complete_objects b)\<rparr>) = (r, b')"
      by (simp add: insert_object_memory_def Let_def)
    from parents_loop_missing [OF this] Some show ?thesis by simp
  next
    case False
    show ?thesis
    proof (cases "filter_missing fails od (sorted_list_of_set chs) chs")
      case (Inl e)
      with Some False assms(1) show ?thesis by (auto simp: insert_object_memory_def Let_def)
    next
      case (Inr chs')
      from filter_missing_subset [OF Inr] assms(2) set_sorted_list_of_set_subset [of chs']
      have "i \<notin> set (sorted_list_of_set chs')" by auto
      from children_loop_other [OF this] Some False Inr assms(1) show ?thesis
        by (auto simp: insert_object_memory_def Let_def split: if_splits)
    qed
  qed
qed

lemma insert_object_memory_no_failure:
  assumes "\<forall>c. \<not> fails (Exists c)"
  shows "insert_object_memory fails od i chs b = insert_object_memory (\<lambda>_. False) od i chs b"
  unfolding insert_object_memory_def
  by (simp only: filter_missing_no_failure [OF assms])

lemma insert_object_memory_no_io:
  assumes "insert_object_memory (\<lambda>_. False) od i chs b = (r, b')"
  shows "r \<noteq> Inl IOError"
proof (cases "missing_objects b i")
  case None
  with assms show ?thesis by (auto simp: insert_object_memory_def)
next
  case (Some ps)
  show ?thesis
  proof (cases "chs = {}")
    case True
    with Some assms have "parents_loop i (sorted_list_of_set ps)
        (b\<lparr>missing_objects := (missing_objects b)(i := None),
           complete_objects := insert i (complete_objects b)\<rparr>) = (r, b')"
      by (simp add: insert_object_memory_def Let_def)
    from parents_loop_missing [OF this] show ?thesis by simp
  next
    case False
    with Some assms filter_missing_ok [of od "sorted_list_of_set chs" chs] show ?thesis
      by (auto simp: insert_object_memory_def Let_def split: sum.splits if_splits)
  qed
qed

text \<open>
  C4. The claim has an I/O error leave \<^verbatim>\<open>_missing_objects\<close>, \<^verbatim>\<open>_incomplete_objects\<close>
  and \<^verbatim>\<open>_complete_objects\<close> unchanged. Every I/O call of \<^verbatim>\<open>insert_object\<close> comes after
  \<^verbatim>\<open>_missing_objects.erase(id)\<close>, and nothing restores the maps, so what holds is: when
  \<^verbatim>\<open>insert_object\<close> throws an I/O error (the object not being its own child), the error
  reaches the caller and the entry of the object, which was there, is gone from
  \<^verbatim>\<open>_missing_objects\<close>; and when the failing call is the store, the pin or the archive,
  the in-memory state is the one that a call without failure leaves.
\<close>

theorem insert_object_io_error_keeps_mutation:
  assumes "RemoteBranch_insert_object fails calc obj chs b od = (Inl IOError, b', od')"
    and "calc obj \<notin> chs"
  shows "missing_objects b (calc obj) \<noteq> None \<and> missing_objects b' (calc obj) = None \<and>
         ((\<forall>c. \<not> fails (Exists c)) \<longrightarrow>
            b' = fst (snd (RemoteBranch_insert_object (\<lambda>_. False) calc obj chs b od)))"
proof -
  obtain rm bm where m: "insert_object_memory fails od (calc obj) chs b = (rm, bm)"
    by (cases "insert_object_memory fails od (calc obj) chs b")
  from m assms(1) have bm: "bm = b'" and rm: "rm \<noteq> Inl OutOfRange"
    and rm': "rm = Inl IOError \<or> (\<exists>u. rm = Inr u)"
    by (auto simp: RemoteBranch_insert_object_def Let_def split: sum.splits prod.splits)
  from insert_object_memory_missing [OF m assms(2) rm] bm
  have a: "missing_objects b (calc obj) \<noteq> None \<and> missing_objects b' (calc obj) = None" by simp
  have "b' = fst (snd (RemoteBranch_insert_object (\<lambda>_. False) calc obj chs b od))"
    if h: "\<forall>c. \<not> fails (Exists c)"
  proof -
    from m insert_object_memory_no_failure [OF h]
    have m': "insert_object_memory (\<lambda>_. False) od (calc obj) chs b = (rm, bm)" by simp
    from insert_object_memory_no_io [OF m'] rm' obtain u where "rm = Inr u"
      by auto
    with m' bm show ?thesis
      by (simp add: RemoteBranch_insert_object_def Let_def flat_store_def store_self_def)
  qed
  with a show ?thesis by blast
qed

text \<open>
  The theorem at work: the store of the root 1 fails. Its entry has left
  \<^verbatim>\<open>_missing_objects\<close>, and the branch is as after a successful insert.
\<close>

theorem insert_object_io_error_witness:
  "missing_objects ex_branch_root 1 \<noteq> None \<and>
   missing_objects (fst (snd (RemoteBranch_insert_object (\<lambda>c. c = StoreObject 1) (\<lambda>obj. obj) 1 {} ex_branch_root objdir0))) 1 = None \<and>
   fst (snd (RemoteBranch_insert_object (\<lambda>c. c = StoreObject 1) (\<lambda>obj. obj) 1 {} ex_branch_root objdir0))
     = fst (snd (RemoteBranch_insert_object (\<lambda>_. False) (\<lambda>obj. obj) 1 {} ex_branch_root objdir0))"
proof -
  let ?X = "RemoteBranch_insert_object (\<lambda>c. c = StoreObject 1) (\<lambda>obj. obj) 1 {} ex_branch_root objdir0"
  have r: "fst ?X = Inl IOError" by (simp add: eval_branch)
  then have e: "?X = (Inl IOError, fst (snd ?X), snd (snd ?X))" by (metis prod.collapse)
  have n: "(\<lambda>obj. obj) (1::ObjectId) \<notin> {}" by simp
  have a: "\<forall>c. \<not> (\<lambda>c. c = StoreObject 1) (Exists c)" by simp
  from insert_object_io_error_keeps_mutation [OF e n] a show ?thesis by blast
qed

text \<open>
  C4 fails when the store of the root 1 raises an I/O error: the call throws, and the
  branch it leaves has no missing object and holds 1 as complete, where before 1 was
  missing and nothing was complete.
\<close>

theorem insert_object_io_error_counterexample:
  "fst (RemoteBranch_insert_object (\<lambda>c. c = StoreObject 1) (\<lambda>obj. obj) 1 {} ex_branch_root objdir0) = Inl IOError \<and>
   missing_objects ex_branch_root 1 = Some {} \<and>
   missing_objects (fst (snd (RemoteBranch_insert_object (\<lambda>c. c = StoreObject 1) (\<lambda>obj. obj) 1 {} ex_branch_root objdir0))) 1 = None \<and>
   complete_objects ex_branch_root = {} \<and>
   complete_objects (fst (snd (RemoteBranch_insert_object (\<lambda>c. c = StoreObject 1) (\<lambda>obj. obj) 1 {} ex_branch_root objdir0))) = {1}"
  by (simp add: eval_branch)

section \<open>RemoteBranch: create\_snapshot\<close>

text \<open>
  C10. \<^verbatim>\<open>create_snapshot\<close> never calls \<^verbatim>\<open>capture_flat_object\<close>: the loop over
  \<^verbatim>\<open>_incomplete_objects\<close> runs only when that map is empty, so it captures nothing then;
  and the complete objects are captured, as full objects and in ascending order, exactly
  when \<^verbatim>\<open>_incomplete_objects\<close> is not empty.
\<close>

theorem create_snapshot_never_flat:
  "capture_flat_object x \<notin> set (create_snapshot b) \<and>
   create_snapshot b =
     (if dom (incomplete_objects b) = {} then []
      else map capture_full_object (sorted_list_of_set (complete_objects b)))"
  by (auto simp: create_snapshot_def)

text \<open>
  The theorem at work: a branch with an incomplete object captures its two complete
  objects in full; a branch without incomplete objects captures nothing.
\<close>

theorem create_snapshot_never_flat_witness:
  "capture_flat_object 1 \<notin> set (create_snapshot
      \<lparr>missing_objects = [2 \<mapsto> {1}], incomplete_objects = [1 \<mapsto> {2}], complete_objects = {4, 3}\<rparr>) \<and>
   create_snapshot
      \<lparr>missing_objects = [2 \<mapsto> {1}], incomplete_objects = [1 \<mapsto> {2}], complete_objects = {4, 3}\<rparr>
     = [capture_full_object 3, capture_full_object 4] \<and>
   create_snapshot
      \<lparr>missing_objects = Map.empty, incomplete_objects = Map.empty, complete_objects = {4, 3}\<rparr> = []"
  using create_snapshot_never_flat [of 1 "\<lparr>missing_objects = [2 \<mapsto> {1}], incomplete_objects = [1 \<mapsto> {2}], complete_objects = {4, 3}\<rparr>"]
    create_snapshot_never_flat [of 1 "\<lparr>missing_objects = Map.empty, incomplete_objects = Map.empty, complete_objects = {4, 3}\<rparr>"]
  by (simp add: word_le_nat_alt)

section \<open>Snapshot: forget\<close>

lemma forget_loop_calls:
  "forget_loop fails xs od = (r, od') \<Longrightarrow>
     calls od' = calls od @ takeWhile (\<lambda>c. \<not> fails c) (forget_calls xs) \<and>
     (r = Inr () \<longleftrightarrow> (\<forall>c \<in> set (forget_calls xs). \<not> fails c)) \<and>
     present od' = present od \<and> rc od' = rc od"
proof (induction fails xs od rule: forget_loop.induct)
  case (1 fails objdir)
  then show ?case by simp
next
  case (2 fails i node rest objdir)
  then show ?case
    by (cases "type node") (auto split: if_splits)
qed

lemma entries_ex_snapshot:
  "entries (nodes ex_snapshot) =
     [(1, leaf Complete), (2, leaf Incomplete), (3, leaf Missing), (4, leaf Complete)]"
  by (simp add: entries_def ex_snapshot_def word_le_nat_alt)

text \<open>
  C5. The claim has \<^verbatim>\<open>forget\<close> make, for each node, exactly the call its type asks for,
  and on an I/O failure log and go on instead of aborting. The \<^verbatim>\<open>catch\<close> block of
  \<^verbatim>\<open>forget\<close> is \<^verbatim>\<open>exit(1)\<close>, so what holds is: \<^verbatim>\<open>forget\<close> walks the nodes in the order of
  their ids and calls \<^verbatim>\<open>deep_remove\<close> for a \<open>Complete\<close> node, \<^verbatim>\<open>flat_remove\<close> for an
  \<open>Incomplete\<close> one and nothing for a \<open>Missing\<close> one, up to the first call that fails;
  it never hands an error to its caller: when no call fails it returns, and when one does
  the process exits with status 1 and the nodes after it get no call. The node map of the
  snapshot is empty afterwards either way.
\<close>

theorem forget_exits_on_failure:
  assumes "forget fails (s, od) = (out, s', od')"
  shows "calls od' = calls od @ takeWhile (\<lambda>c. \<not> fails c) (forget_calls (entries (nodes s))) \<and>
         out = (if \<exists>c \<in> set (forget_calls (entries (nodes s))). fails c then Exited 1 else Returned) \<and>
         nodes s' = Map.empty"
proof -
  obtain r odl where l: "forget_loop fails (entries (nodes s)) od = (r, odl)"
    by (cases "forget_loop fails (entries (nodes s)) od")
  note lc = forget_loop_calls [OF l]
  show ?thesis
  proof (cases r)
    case (Inl e)
    with l assms lc show ?thesis by (auto simp: forget_def)
  next
    case (Inr u)
    with l assms lc show ?thesis by (auto simp: forget_def)
  qed
qed

text \<open>
  The theorem at work on a snapshot with nodes 1 (complete), 2 (incomplete), 3 (missing)
  and 4 (complete): once with a failing \<^verbatim>\<open>flat_remove\<close> of 2, once without failure.
\<close>

theorem forget_exits_on_failure_witness:
  "calls (snd (snd (forget (\<lambda>c. c = FlatRemove 2) (ex_snapshot, objdir0)))) = [DeepRemove 1] \<and>
   fst (forget (\<lambda>c. c = FlatRemove 2) (ex_snapshot, objdir0)) = Exited 1 \<and>
   calls (snd (snd (forget (\<lambda>_. False) (ex_snapshot, objdir0)))) = [DeepRemove 1, FlatRemove 2, DeepRemove 4] \<and>
   fst (forget (\<lambda>_. False) (ex_snapshot, objdir0)) = Returned"
proof -
  let ?X = "forget (\<lambda>c. c = FlatRemove 2) (ex_snapshot, objdir0)"
  let ?Y = "forget (\<lambda>_. False) (ex_snapshot, objdir0)"
  have x: "?X = (fst ?X, fst (snd ?X), snd (snd ?X))" by simp
  have y: "?Y = (fst ?Y, fst (snd ?Y), snd (snd ?Y))" by simp
  from forget_exits_on_failure [OF x] forget_exits_on_failure [OF y] show ?thesis
    by (simp add: entries_ex_snapshot leaf_def objdir0_def)
qed

text \<open>
  C5 fails when \<^verbatim>\<open>flat_remove\<close> of node 2 fails: the process exits with status 1, and
  the complete node 4, which comes after 2, never gets its \<^verbatim>\<open>deep_remove\<close>.
\<close>

theorem forget_exits_on_failure_counterexample:
  "fst (forget (\<lambda>c. c = FlatRemove 2) (ex_snapshot, objdir0)) = Exited 1 \<and>
   calls (snd (snd (forget (\<lambda>c. c = FlatRemove 2) (ex_snapshot, objdir0)))) = [DeepRemove 1] \<and>
   map_option type (nodes ex_snapshot 4) = Some Complete"
  by (simp add: forget_def entries_def word_le_nat_alt leaf_def objdir0_def ex_snapshot_def)

section \<open>Snapshot: insert\_object and the completion of parents\<close>

lemmas eval_snapshot =
  deliver_def Snapshot_insert_object_def Snapshot_create_def objdir0_def ex_objdir_shared_def
  store_block_def sort_children_def register_children_def is_complete_def
  increment_recursive_count_def increment_direct_count_def decrement_direct_count_def
  word_le_nat_alt Let_def insert_Diff_if

text \<open>
  C3. The root 1 has the leaves 2 and 3 as children; the objects are delivered parent
  first, 1 then 2 then 3, into an empty object directory. After the last delivery the
  root is \<open>Complete\<close> with direct count 0 and recursive count 1, and node 3, whose
  completion completed the root, is gone; but node 2, which completed before its sibling,
  is still in the node map, as a \<open>Complete\<close> node: \<^verbatim>\<open>_nodes.erase(child)\<close> erases only
  the child whose notification completes the parent.

  Delivered children first, 2 then 3 then 1, the leaves are not nodes of the snapshot
  when they arrive and are ignored; the root then finds them in the object directory
  with no recursive count, and stays \<open>Incomplete\<close> with direct count 1, with 2 and 3 as
  \<open>Missing\<close> nodes.
\<close>

theorem snapshot_keeps_earlier_sibling:
  "map_option fst
     (deliver (Suc 0) 3 {} (deliver (Suc 0) 2 {} (deliver (Suc 0) 1 {2, 3}
        (Some (Inr (), Snapshot_create 1, objdir0)))))
     = Some (Inr ()) \<and>
   map_option (\<lambda>(r, s, objdir). (map_option type (nodes s 1), rc objdir 1, map_option type (nodes s 2), nodes s 3))
     (deliver (Suc 0) 3 {} (deliver (Suc 0) 2 {} (deliver (Suc 0) 1 {2, 3}
        (Some (Inr (), Snapshot_create 1, objdir0)))))
     = Some (Some Complete, \<lparr>direct_count = 0, recursive_count = 1\<rparr>, Some Complete, None) \<and>
   map_option (\<lambda>(r, s, objdir).
       (r, map_option type (nodes s 1), rc objdir 1, map_option type (nodes s 2), map_option type (nodes s 3)))
     (deliver (Suc 0) 1 {2, 3} (deliver (Suc 0) 3 {} (deliver (Suc 0) 2 {}
        (Some (Inr (), Snapshot_create 1, objdir0)))))
     = Some (Inr (), Some Incomplete, \<lparr>direct_count = 1, recursive_count = 0\<rparr>, Some Missing, Some Missing)"
  by (simp add: eval_snapshot)

text \<open>
  C6. The object directory already holds leaf 2, pinned recursively by another owner.
  The root 1 arrives with the child 2: \<^verbatim>\<open>sort_children\<close> files 2 under the complete
  children of 1, and the loop over the children still registers a \<open>Missing\<close> node for 2
  with parent 1. When 2 is then reported, \<^verbatim>\<open>notify_parent_that_child_completed(1, 2)\<close>
  finds 2 neither among the missing nor among the incomplete children of 1, and the
  assertion \<^verbatim>\<open>cnt == 1\<close> fails.

  The same happens from an empty object directory. The root 1 has the children 2, 3 and
  4, and 2 and 3 share the child 5. After 1, 2 and 5 have arrived, 2 is complete and node
  5 is erased; 3 then arrives, finds 5 complete in the object directory, and registers a
  \<open>Missing\<close> node for 5 again. Reporting 5 to fill that node fails the assertion in
  \<^verbatim>\<open>notify_parent_that_child_completed(3, 5)\<close>.
\<close>

theorem notify_assertion_fails:
  "map_option fst
     (deliver (Suc 0) 2 {} (deliver (Suc 0) 1 {2} (Some (Inr (), Snapshot_create 1, ex_objdir_shared))))
     = Some (Inl AssertionFailed) \<and>
   map_option (\<lambda>(r, s, objdir). (map_option type (nodes s 2), map_option children (nodes s 1)))
     (deliver (Suc 0) 1 {2} (Some (Inr (), Snapshot_create 1, ex_objdir_shared)))
     = Some (Some Missing, Some \<lparr>missing = {}, incomplete = {}, complete = {2}\<rparr>) \<and>
   map_option (\<lambda>(r, s, objdir). (r, map_option type (nodes s 5), map_option children (nodes s 3)))
     (deliver (Suc (Suc 0)) 3 {5} (deliver (Suc (Suc 0)) 5 {} (deliver (Suc (Suc 0)) 2 {5}
        (deliver (Suc (Suc 0)) 1 {2, 3, 4} (Some (Inr (), Snapshot_create 1, objdir0))))))
     = Some (Inr (), Some Missing, Some \<lparr>missing = {}, incomplete = {}, complete = {5}\<rparr>) \<and>
   map_option fst
     (deliver (Suc (Suc 0)) 5 {} (deliver (Suc (Suc 0)) 3 {5} (deliver (Suc (Suc 0)) 5 {}
        (deliver (Suc (Suc 0)) 2 {5} (deliver (Suc (Suc 0)) 1 {2, 3, 4}
           (Some (Inr (), Snapshot_create 1, objdir0)))))))
     = Some (Inl AssertionFailed)"
  by (simp add: eval_snapshot)

section \<open>RootOp: remove\_recursive\<close>

lemma only_removes_refl: "only_removes s s"
  by (simp add: only_removes_def)

lemma only_removes_trans:
  assumes "only_removes s s1" and "only_removes s1 s2"
  shows "only_removes s s2"
proof -
  have "block_store s2 k = None \<or> block_store s2 k = block_store s k" for k
    using assms unfolding only_removes_def by metis
  moreover have "edges (index s2) \<subseteq> edges (index s)"
    using assms unfolding only_removes_def by blast
  ultimately show ?thesis
    using assms unfolding only_removes_def by simp
qed

lemma for_each_invariant:
  assumes "for_each f xs s = Some (r, s')" and "P s"
    and "\<And>x t r' t'. x \<in> set xs \<Longrightarrow> P t \<Longrightarrow> f x t = Some (r', t') \<Longrightarrow> P t'"
  shows "P s'"
  using assms
proof (induction xs arbitrary: s)
  case Nil
  then show ?case by simp
next
  case (Cons x xs)
  from Cons.prems(1) obtain r1 s1 where f: "f x s = Some (r1, s1)"
    by (cases "f x s") auto
  from Cons.prems(3) [OF _ Cons.prems(2) f] have p1: "P s1" by simp
  have st: "\<And>y t r' t'. y \<in> set xs \<Longrightarrow> P t \<Longrightarrow> f y t = Some (r', t') \<Longrightarrow> P t'"
    by (rule Cons.prems(3)) simp_all
  show ?case
  proof (cases r1)
    case (Inl e)
    with f Cons.prems(1) p1 show ?thesis by simp
  next
    case (Inr u)
    with f Cons.prems(1) have "for_each f xs s1 = Some (r, s')" by simp
    from Cons.IH [OF this p1 st] show ?thesis .
  qed
qed

lemma for_each_visits:
  assumes "for_each f xs s = Some (Inr (), s')" and "x \<in> set xs"
    and step: "\<And>y t r t'. f y t = Some (r, t') \<Longrightarrow> R t t'"
    and refl: "\<And>t. R t t"
    and trans: "\<And>a b c. R a b \<Longrightarrow> R b c \<Longrightarrow> R a c"
  shows "\<exists>t t'. R s t \<and> f x t = Some (Inr (), t') \<and> R t' s'"
  using assms(1,2)
proof (induction xs arbitrary: s)
  case Nil
  then show ?case by simp
next
  case (Cons y ys)
  from Cons.prems(1) obtain r1 s1 where f: "f y s = Some (r1, s1)"
    by (cases "f y s") auto
  with Cons.prems(1) obtain u where r1: "r1 = Inr u" by (cases r1) auto
  with f Cons.prems(1) have rest: "for_each f ys s1 = Some (Inr (), s')" by simp
  have rs1: "R s s1" by (rule step [OF f])
  have "R s1 s'"
    by (rule for_each_invariant [OF rest refl]) (blast intro: trans step)
  show ?case
  proof (cases "x = y")
    case True
    with f r1 \<open>R s1 s'\<close> refl show ?thesis by auto
  next
    case False
    with Cons.prems(2) have "x \<in> set ys" by simp
    from Cons.IH [OF rest this] obtain t t' where "R s1 t" "f x t = Some (Inr (), t')" "R t' s'"
      by blast
    with rs1 show ?thesis by (blast intro: trans)
  qed
qed

lemma remove_recursive_frame:
  "remove_recursive fuel obj_id parent_id s = Some (r, s') \<Longrightarrow>
     only_removes s s' \<and> (this_user_id s, obj_id, parent_id) \<notin> edges (index s')"
proof (induction fuel arbitrary: obj_id parent_id s r s')
  case 0
  then show ?case by simp
next
  case (Suc fuel)
  let ?s1 = "s\<lparr>index := remove_object (this_user_id s) obj_id parent_id (index s)\<rparr>"
  have s1: "only_removes s ?s1 \<and> (this_user_id s, obj_id, parent_id) \<notin> edges (index ?s1)"
    by (auto simp: only_removes_def remove_object_def)
  let ?P = "\<lambda>t. only_removes s t \<and> (this_user_id s, obj_id, parent_id) \<notin> edges (index t)"
  have step: "?P t'" if "?P t" and "remove_recursive fuel c obj_id t = Some (r', t')" for c t r' t'
  proof -
    from Suc.IH [OF that(2)] have tt': "only_removes t t'" by simp
    from that(1) have "only_removes s t" by simp
    from only_removes_trans [OF this tt'] have 1: "only_removes s t'" .
    from tt' have "edges (index t') \<subseteq> edges (index t)" by (simp add: only_removes_def)
    with that(1) 1 show ?thesis by blast
  qed
  show ?case
  proof (cases "someone_has (index ?s1) obj_id")
    case True
    with Suc.prems have "s' = ?s1" by (simp add: Let_def)
    with s1 show ?thesis by simp
  next
    case False
    show ?thesis
    proof (cases "block_store s obj_id")
      case None
      with False Suc.prems have "s' = ?s1" by (simp add: Let_def)
      with s1 show ?thesis by simp
    next
      case (Some block)
      let ?cs = "case maybe_load block of Some d \<Rightarrow> for_each_unique_child d | None \<Rightarrow> []"
      from Suc.prems False Some obtain r2 s2 where
        loop: "for_each (\<lambda>child_id. remove_recursive fuel child_id obj_id) ?cs ?s1 = Some (r2, s2)"
        by (cases "for_each (\<lambda>child_id. remove_recursive fuel child_id obj_id) ?cs ?s1") (auto simp: Let_def)
      have p2: "?P s2"
        by (rule for_each_invariant [where P = ?P, OF loop s1]) (rule step)
      show ?thesis
      proof (cases r2)
        case (Inl e)
        with loop Suc.prems False Some have "s' = s2" by (simp add: Let_def)
        with p2 show ?thesis by simp
      next
        case (Inr u)
        with loop Suc.prems False Some
        have s': "s' = s2\<lparr>block_store := (block_store s2)(obj_id := None)\<rparr>" by (simp add: Let_def)
        have "only_removes s2 s'" by (simp add: only_removes_def s')
        with p2 have "only_removes s s'" by (blast intro: only_removes_trans)
        moreover from p2 s' have "(this_user_id s, obj_id, parent_id) \<notin> edges (index s')" by simp
        ultimately show ?thesis by simp
      qed
    qed
  qed
qed


lemma ranked_only_removes:
  assumes "ranked rank (block_store t)" and "only_removes t t'"
  shows "ranked rank (block_store t')"
  unfolding ranked_def
proof (intro allI impI)
  fix k d
  assume "block_store t' k = Some (DirectoryBlock d)"
  with assms(2) have "block_store t k = Some (DirectoryBlock d)"
    unfolding only_removes_def by (metis option.distinct(1))
  with assms(1) show "\<forall>c \<in> set (for_each_unique_child d). rank c < rank k"
    unfolding ranked_def by blast
qed

lemma for_each_returns:
  assumes "P s"
    and "\<And>x t. x \<in> set xs \<Longrightarrow> P t \<Longrightarrow> \<exists>r t'. f x t = Some (r, t') \<and> P t'"
  shows "\<exists>r s'. for_each f xs s = Some (r, s')"
  using assms
proof (induction xs arbitrary: s)
  case Nil
  then show ?case by simp
next
  case (Cons x xs)
  from Cons.prems(2) [OF _ Cons.prems(1), of x] obtain r1 s1 where f: "f x s = Some (r1, s1)" and p1: "P s1"
    by auto
  have st: "\<And>y t. y \<in> set xs \<Longrightarrow> P t \<Longrightarrow> \<exists>r t'. f y t = Some (r, t') \<and> P t'"
    by (rule Cons.prems(2)) simp_all
  show ?case
  proof (cases r1)
    case (Inl e)
    with f show ?thesis by simp
  next
    case (Inr u)
    from Cons.IH [OF p1 st] obtain r s' where "for_each f xs s1 = Some (r, s')" by blast
    with f Inr show ?thesis by simp
  qed
qed

text \<open>On a ranked block store, fuel above the rank of the object is enough.\<close>

lemma remove_recursive_returns:
  "ranked rank (block_store s) \<Longrightarrow> rank obj_id < fuel \<Longrightarrow>
     \<exists>r s'. remove_recursive fuel obj_id parent_id s = Some (r, s')"
proof (induction fuel arbitrary: obj_id parent_id s)
  case 0
  then show ?case by simp
next
  case (Suc fuel)
  let ?s1 = "s\<lparr>index := remove_object (this_user_id s) obj_id parent_id (index s)\<rparr>"
  show ?case
  proof (cases "someone_has (index ?s1) obj_id")
    case True
    then show ?thesis by (simp add: Let_def)
  next
    case False
    show ?thesis
    proof (cases "block_store s obj_id")
      case None
      with False show ?thesis by (simp add: Let_def)
    next
      case (Some block)
      let ?cs = "case maybe_load block of Some d \<Rightarrow> for_each_unique_child d | None \<Rightarrow> []"
      let ?f = "\<lambda>child_id. remove_recursive fuel child_id obj_id"
      let ?P = "\<lambda>t. ranked rank (block_store t)"
      have low: "rank c < fuel" if "c \<in> set ?cs" for c
      proof (cases block)
        case (DirectoryBlock d)
        with that have "c \<in> set (for_each_unique_child d)" by (simp add: maybe_load_def)
        with Suc.prems(1) Some DirectoryBlock have "rank c < rank obj_id"
          unfolding ranked_def by blast
        with Suc.prems(2) show ?thesis by simp
      next
        case (BlobBlock bytes)
        with that show ?thesis by (simp add: maybe_load_def)
      qed
      have p1: "?P ?s1" using Suc.prems(1) by simp
      have step: "\<exists>r t'. ?f c t = Some (r, t') \<and> ?P t'" if "c \<in> set ?cs" and "?P t" for c t
      proof -
        from Suc.IH [OF that(2) low [OF that(1)]] obtain r t' where
          rr: "remove_recursive fuel c obj_id t = Some (r, t')" by blast
        from remove_recursive_frame [OF rr] have "only_removes t t'" by simp
        from ranked_only_removes [OF that(2) this] rr show ?thesis by blast
      qed
      have "\<exists>r2 s2. for_each ?f ?cs ?s1 = Some (r2, s2)"
        by (rule for_each_returns [where P = ?P and f = ?f, OF p1]) (rule step)
      then obtain r2 s2 where loop: "for_each ?f ?cs ?s1 = Some (r2, s2)" by blast
      with False Some show ?thesis
        by (cases r2) (simp_all add: Let_def)
    qed
  qed
qed


lemma remove_recursive_result:
  assumes "remove_recursive fuel obj_id parent_id s = Some (r, s')"
  shows "(this_user_id s, obj_id, parent_id) \<notin> edges (index s') \<and>
         edges (index s') \<subseteq> edges (index s) \<and>
         (someone_has (remove_object (this_user_id s) obj_id parent_id (index s)) obj_id \<longrightarrow>
            r = Inr () \<and>
            s' = s\<lparr>index := remove_object (this_user_id s) obj_id parent_id (index s)\<rparr>) \<and>
         (\<not> someone_has (remove_object (this_user_id s) obj_id parent_id (index s)) obj_id \<and>
          block_store s obj_id = None \<longrightarrow>
            r = Inl BlockMissing \<and>
            s' = s\<lparr>index := remove_object (this_user_id s) obj_id parent_id (index s)\<rparr>) \<and>
         (\<not> someone_has (remove_object (this_user_id s) obj_id parent_id (index s)) obj_id \<longrightarrow>
            (\<forall>block. block_store s obj_id = Some block \<longrightarrow>
               (\<exists>n r2 s2. fuel = Suc n \<and>
                  for_each (\<lambda>child_id. remove_recursive n child_id obj_id)
                    (case maybe_load block of Some d \<Rightarrow> for_each_unique_child d | None \<Rightarrow> [])
                    (s\<lparr>index := remove_object (this_user_id s) obj_id parent_id (index s)\<rparr>) = Some (r2, s2) \<and>
                  (\<forall>e. r2 = Inl e \<longrightarrow> r = Inl e \<and> s' = s2) \<and>
                  (r2 = Inr () \<longrightarrow>
                     r = Inr () \<and> s' = s2\<lparr>block_store := (block_store s2)(obj_id := None)\<rparr> \<and>
                     (\<forall>c \<in> set (case maybe_load block of Some d \<Rightarrow> for_each_unique_child d | None \<Rightarrow> []).
                        (this_user_id s, c, obj_id) \<notin> edges (index s'))))))"
proof -
  from assms obtain n where n: "fuel = Suc n" by (cases fuel) auto
  let ?s1 = "s\<lparr>index := remove_object (this_user_id s) obj_id parent_id (index s)\<rparr>"
  let ?has = "someone_has (remove_object (this_user_id s) obj_id parent_id (index s)) obj_id"
  note fr = remove_recursive_frame [OF assms]
  have a: "(this_user_id s, obj_id, parent_id) \<notin> edges (index s') \<and> edges (index s') \<subseteq> edges (index s)"
    using fr by (simp add: only_removes_def)
  have b: "r = Inr () \<and> s' = ?s1" if "?has"
    using that assms n by (simp add: Let_def)
  have c: "r = Inl BlockMissing \<and> s' = ?s1" if "\<not> ?has" and "block_store s obj_id = None"
    using that assms n by (simp add: Let_def)
  have d: "\<exists>n r2 s2. fuel = Suc n \<and>
                  for_each (\<lambda>child_id. remove_recursive n child_id obj_id)
                    (case maybe_load block of Some d \<Rightarrow> for_each_unique_child d | None \<Rightarrow> []) ?s1 = Some (r2, s2) \<and>
                  (\<forall>e. r2 = Inl e \<longrightarrow> r = Inl e \<and> s' = s2) \<and>
                  (r2 = Inr () \<longrightarrow>
                     r = Inr () \<and> s' = s2\<lparr>block_store := (block_store s2)(obj_id := None)\<rparr> \<and>
                     (\<forall>c \<in> set (case maybe_load block of Some d \<Rightarrow> for_each_unique_child d | None \<Rightarrow> []).
                        (this_user_id s, c, obj_id) \<notin> edges (index s')))"
    if nh: "\<not> ?has" and blk: "block_store s obj_id = Some block" for block
  proof -
    let ?cs = "case maybe_load block of Some d \<Rightarrow> for_each_unique_child d | None \<Rightarrow> []"
    let ?f = "\<lambda>child_id. remove_recursive n child_id obj_id"
    have eq: "remove_recursive fuel obj_id parent_id s =
        (case for_each ?f ?cs ?s1 of
           None \<Rightarrow> None
         | Some (Inl e, s2) \<Rightarrow> Some (Inl e, s2)
         | Some (Inr _, s2) \<Rightarrow> Some (Inr (), s2\<lparr>block_store := (block_store s2)(obj_id := None)\<rparr>))"
      using nh blk n by (simp add: Let_def)
    from assms eq obtain r2 s2 where loop: "for_each ?f ?cs ?s1 = Some (r2, s2)"
      by (cases "for_each ?f ?cs ?s1") auto
    have err: "\<forall>e. r2 = Inl e \<longrightarrow> r = Inl e \<and> s' = s2"
      using assms eq loop by auto
    have ok: "r = Inr () \<and> s' = s2\<lparr>block_store := (block_store s2)(obj_id := None)\<rparr> \<and>
              (\<forall>c \<in> set ?cs. (this_user_id s, c, obj_id) \<notin> edges (index s'))" if r2: "r2 = Inr ()"
    proof -
      from assms eq loop r2 have r: "r = Inr ()"
        and s': "s' = s2\<lparr>block_store := (block_store s2)(obj_id := None)\<rparr>" by auto
      have "(this_user_id s, c, obj_id) \<notin> edges (index s')" if "c \<in> set ?cs" for c
      proof -
        from loop r2 have loop': "for_each ?f ?cs ?s1 = Some (Inr (), s2)" by simp
        have "\<exists>t t'. only_removes ?s1 t \<and> ?f c t = Some (Inr (), t') \<and> only_removes t' s2"
        proof (rule for_each_visits [OF loop' that])
          show "only_removes t t'" if "remove_recursive n y obj_id t = Some (r, t')" for y t r t'
            using remove_recursive_frame [OF that] by simp
        qed (auto intro: only_removes_refl only_removes_trans)
        then obtain t t' where 1: "only_removes ?s1 t" and 2: "remove_recursive n c obj_id t = Some (Inr (), t')"
          and 3: "only_removes t' s2" by blast
        from remove_recursive_frame [OF 2] have "(this_user_id t, c, obj_id) \<notin> edges (index t')" by simp
        moreover from 1 have "this_user_id t = this_user_id s" by (simp add: only_removes_def)
        moreover from 3 s' have "edges (index s') \<subseteq> edges (index t')" by (simp add: only_removes_def)
        ultimately show ?thesis by auto
      qed
      with r s' show ?thesis by blast
    qed
    show ?thesis
      by (intro exI [of _ n] exI [of _ r2] exI [of _ s2] conjI n loop err impI ok)
  qed
  show ?thesis
  proof (intro conjI impI allI)
    show "(this_user_id s, obj_id, parent_id) \<notin> edges (index s')" using a by simp
    show "edges (index s') \<subseteq> edges (index s)" using a by simp
  qed (use b c d in \<open>simp_all\<close>)
qed

text \<open>
  C8. \<^verbatim>\<open>remove_recursive\<close> on a block store whose directories name only children of
  smaller rank, with fuel above the rank of the object: the run returns. It has removed
  the edge \<open>(this_user, obj_id, parent_id)\<close> and added none. If an edge still names the
  object as child, that is all: the result is success and the state is the one after the
  removal of the edge, the block store as it was. Otherwise the block is loaded. An
  absent block is the error \<open>BlockMissing\<close>. A present one has its unique children
  (none when it does not parse as a directory) removed in order with \<open>obj_id\<close> as
  parent, from the state after the removal of the edge; an error of a child is the error
  of the run, and nothing more is done; when all succeed, the block of \<open>obj_id\<close> is
  removed last, and no edge of the user from a child to \<open>obj_id\<close> remains.
\<close>

theorem remove_recursive_steps:
  assumes "ranked rank (block_store s)" and "rank obj_id < fuel"
  shows "\<exists>r s'. remove_recursive fuel obj_id parent_id s = Some (r, s') \<and>
         (this_user_id s, obj_id, parent_id) \<notin> edges (index s') \<and>
         edges (index s') \<subseteq> edges (index s) \<and>
         (someone_has (remove_object (this_user_id s) obj_id parent_id (index s)) obj_id \<longrightarrow>
            r = Inr () \<and>
            s' = s\<lparr>index := remove_object (this_user_id s) obj_id parent_id (index s)\<rparr>) \<and>
         (\<not> someone_has (remove_object (this_user_id s) obj_id parent_id (index s)) obj_id \<and>
          block_store s obj_id = None \<longrightarrow>
            r = Inl BlockMissing \<and>
            s' = s\<lparr>index := remove_object (this_user_id s) obj_id parent_id (index s)\<rparr>) \<and>
         (\<not> someone_has (remove_object (this_user_id s) obj_id parent_id (index s)) obj_id \<longrightarrow>
            (\<forall>block. block_store s obj_id = Some block \<longrightarrow>
               (\<exists>n r2 s2. fuel = Suc n \<and>
                  for_each (\<lambda>child_id. remove_recursive n child_id obj_id)
                    (case maybe_load block of Some d \<Rightarrow> for_each_unique_child d | None \<Rightarrow> [])
                    (s\<lparr>index := remove_object (this_user_id s) obj_id parent_id (index s)\<rparr>) = Some (r2, s2) \<and>
                  (\<forall>e. r2 = Inl e \<longrightarrow> r = Inl e \<and> s' = s2) \<and>
                  (r2 = Inr () \<longrightarrow>
                     r = Inr () \<and> s' = s2\<lparr>block_store := (block_store s2)(obj_id := None)\<rparr> \<and>
                     (\<forall>c \<in> set (case maybe_load block of Some d \<Rightarrow> for_each_unique_child d | None \<Rightarrow> []).
                        (this_user_id s, c, obj_id) \<notin> edges (index s'))))))"
proof -
  from remove_recursive_returns [OF assms] obtain r s' where
    rr: "remove_recursive fuel obj_id parent_id s = Some (r, s')" by blast
  show ?thesis
    by (rule exI [of _ r], rule exI [of _ s'], rule conjI [OF rr remove_recursive_result [OF rr]])
qed

lemma ex_remove_recursive:
  "remove_recursive (Suc (Suc 0)) 17 17 ex_rootop_shared =
     Some (Inr (), ex_rootop_shared\<lparr>block_store := [7 \<mapsto> DirectoryBlock [(''c'', [(2, ex_blob 6 1)])], 6 \<mapsto> BlobBlock []],
                                    index := (index ex_rootop_shared)\<lparr>edges := {(2, 7, 7), (2, 6, 7)}\<rparr>\<rparr>)"
  by (simp add: ex_rootop_shared_def ex_blob_def for_each_unique_child_def maybe_load_def
      remove_object_def someone_has_def Let_def insert_Diff_if fun_upd_twist)

lemma ex_rootop_shared_ranked: "ranked ex_rank (block_store ex_rootop_shared)"
  by (auto simp: ranked_def ex_rank_def ex_rootop_shared_def ex_blob_def for_each_unique_child_def
      split: if_splits)

text \<open>
  The theorem at work. Removing the root 17 from itself goes through the unique children
  5 and 6 of its block: no edge of user 1 into 17 remains, and the block of 17 is gone.
  Removing 6 from 17 alone stops after the edge, since user 2 still has 6.
\<close>

theorem remove_recursive_steps_witness:
  "ranked ex_rank (block_store ex_rootop_shared) \<and> ex_rank 17 < Suc (Suc 0) \<and> ex_rank 6 < Suc 0 \<and>
   (\<exists>s'. remove_recursive (Suc (Suc 0)) 17 17 ex_rootop_shared = Some (Inr (), s') \<and>
      (1, 17, 17) \<notin> edges (index s') \<and> (1, 5, 17) \<notin> edges (index s') \<and>
      (1, 6, 17) \<notin> edges (index s') \<and> block_store s' 17 = None) \<and>
   remove_recursive (Suc 0) 6 17 ex_rootop_shared =
     Some (Inr (), ex_rootop_shared\<lparr>index := remove_object 1 6 17 (index ex_rootop_shared)\<rparr>)"
proof -
  let ?X = "remove_recursive (Suc (Suc 0)) 17 17 ex_rootop_shared"
  let ?Y = "remove_recursive (Suc 0) 6 17 ex_rootop_shared"
  have rk: "ranked ex_rank (block_store ex_rootop_shared)" by (rule ex_rootop_shared_ranked)
  have r17: "ex_rank 17 < Suc (Suc 0)" by (simp add: ex_rank_def)
  have r6: "ex_rank 6 < Suc 0" by (simp add: ex_rank_def)
  have x: "map_option fst ?X = Some (Inr ())" unfolding ex_remove_recursive by simp
  have nh: "\<not> someone_has (remove_object (this_user_id ex_rootop_shared) 17 17 (index ex_rootop_shared)) 17"
    by (simp add: ex_rootop_shared_def remove_object_def someone_has_def insert_Diff_if)
  have blk: "block_store ex_rootop_shared 17 =
      Some (DirectoryBlock [(''a'', [(1, ex_blob 5 1)]), (''b'', [(1, ex_blob 5 1)]), (''c'', [(1, ex_blob 6 1)])])"
    by (simp add: ex_rootop_shared_def)
  have cs: "for_each_unique_child [(''a'', [(1, ex_blob 5 1)]), (''b'', [(1, ex_blob 5 1)]), (''c'', [(1, ex_blob 6 1)])] = [5, 6]"
    by (simp add: for_each_unique_child_def ex_blob_def)
  have u: "this_user_id ex_rootop_shared = 1" by (simp add: ex_rootop_shared_def)
  have h: "someone_has (remove_object (this_user_id ex_rootop_shared) 6 17 (index ex_rootop_shared)) 6"
    by (simp add: ex_rootop_shared_def remove_object_def someone_has_def insert_Diff_if)
  from remove_recursive_steps [OF rk r17, of 17] obtain r s' where
    1: "?X = Some (r, s')" and
    2: "(this_user_id ex_rootop_shared, 17, 17) \<notin> edges (index s')" and
    3: "\<not> someone_has (remove_object (this_user_id ex_rootop_shared) 17 17 (index ex_rootop_shared)) 17 \<longrightarrow>
            (\<forall>block. block_store ex_rootop_shared 17 = Some block \<longrightarrow>
               (\<exists>n r2 s2. Suc (Suc 0) = Suc n \<and>
                  for_each (\<lambda>child_id. remove_recursive n child_id 17)
                    (case maybe_load block of Some d \<Rightarrow> for_each_unique_child d | None \<Rightarrow> [])
                    (ex_rootop_shared\<lparr>index := remove_object (this_user_id ex_rootop_shared) 17 17 (index ex_rootop_shared)\<rparr>) = Some (r2, s2) \<and>
                  (\<forall>e. r2 = Inl e \<longrightarrow> r = Inl e \<and> s' = s2) \<and>
                  (r2 = Inr () \<longrightarrow>
                     r = Inr () \<and> s' = s2\<lparr>block_store := (block_store s2)(17 := None)\<rparr> \<and>
                     (\<forall>c \<in> set (case maybe_load block of Some d \<Rightarrow> for_each_unique_child d | None \<Rightarrow> []).
                        (this_user_id ex_rootop_shared, c, 17) \<notin> edges (index s')))))"
    by (elim exE conjE) (rule that)
  from x 1 have r: "r = Inr ()" by simp
  from 3 nh blk obtain r2 s2 where
    4: "\<forall>e. r2 = Inl e \<longrightarrow> r = Inl e \<and> s' = s2" and
    5: "r2 = Inr () \<longrightarrow>
          r = Inr () \<and> s' = s2\<lparr>block_store := (block_store s2)(17 := None)\<rparr> \<and>
          (\<forall>c \<in> set [5, 6]. (this_user_id ex_rootop_shared, c, 17) \<notin> edges (index s'))"
    by (auto simp: maybe_load_def cs simp del: remove_recursive.simps)
  from 4 r have "r2 = Inr ()" by (cases r2) auto
  with 5 u have 6: "(1, 5, 17) \<notin> edges (index s') \<and> (1, 6, 17) \<notin> edges (index s') \<and> block_store s' 17 = None"
    by auto
  from 1 r 2 u 6 have a: "\<exists>s'. ?X = Some (Inr (), s') \<and>
      (1, 17, 17) \<notin> edges (index s') \<and> (1, 5, 17) \<notin> edges (index s') \<and>
      (1, 6, 17) \<notin> edges (index s') \<and> block_store s' 17 = None"
    by (intro exI [of _ s']) simp
  from remove_recursive_steps [OF rk r6, of 17] h u
  have b: "?Y = Some (Inr (), ex_rootop_shared\<lparr>index := remove_object 1 6 17 (index ex_rootop_shared)\<rparr>)"
    by (auto simp del: remove_recursive.simps)
  from rk r17 r6 a b show ?thesis by blast
qed

section \<open>RootOp: commit\<close>

lemmas eval_rootop =
  commit_def calculate_id_def calculate_version_vector_union_def for_each_unique_child_def maybe_load_def
  Index_insert_object_def remove_object_def someone_has_def set_version_vector_def
  ex_rootop_def ex_vv_def ex_blob_def ex_sha256_def version_of_def merge_def Let_def insert_Diff_if


















text \<open>
  C9. When the id of the in-memory tree is the id of the original commit, \<^verbatim>\<open>commit\<close>
  returns \<open>false\<close> and leaves everything as it was: the block store, the edges and
  commits of the index (the version vector with them), the tree. Reference counts are no
  part of a \<^verbatim>\<open>RootOp\<close>.
\<close>

theorem commit_same_id_is_noop:
  "calculate_id sha256 (tree s) = vobj_id (original_commit s) \<Longrightarrow> commit sha256 fuel s = Some (Inr False, s)"
  by (simp add: commit_def)

text \<open>The theorem at work: the tree is the directory that the commit names.\<close>

theorem commit_same_id_is_noop_witness:
  "commit ex_sha256 0 (ex_rootop [(''a'', [(1, ex_blob 5 1)])]) = Some (Inr False, ex_rootop [(''a'', [(1, ex_blob 5 1)])])"
  using commit_same_id_is_noop [of ex_sha256 "ex_rootop [(''a'', [(1, ex_blob 5 1)])]" 0]
  by (simp add: calculate_id_def ex_rootop_def ex_sha256_def ex_blob_def)







text \<open>
  A tree whose vectors are below the commit's is turned down: the union of the empty
  directory is the empty vector, and the commit of user 1 keeps the vector \<open>{1: 1}\<close>.
\<close>

lemma ex_commit_empty_tree:
  "map_option fst (commit ex_sha256 (Suc (Suc 0)) (ex_rootop [])) = Some (Inl VersionRegression) \<and>
   map_option (\<lambda>c. version_of (versions c) 1)
     (commits (index (snd (the (commit ex_sha256 (Suc (Suc 0)) (ex_rootop []))))) 1) = Some 1"
  by (simp add: eval_rootop)

end
